theory Spec2Isabelle
  imports Main "HOL-Library.Sublist"
begin

section \<open>Python values used by \<^verbatim>\<open>scripts/utils.py\<close>\<close>

text \<open>
  A Python \<^verbatim>\<open>str\<close> is modelled as a \<^typ>\<open>string\<close>: one \<^typ>\<open>char\<close> per character of the text
  (characters with code point below 256). Positions are Python integers, so they are
  \<^typ>\<open>int\<close> and may be negative; indexing and slicing follow Python: a negative index
  counts from the end, an index outside the string raises \<^verbatim>\<open>IndexError\<close>, a slice clips.
  Logging has no effect on any returned value and is left out.
\<close>

datatype py_error = IndexError

definition backslash :: char where
  "backslash = CHR 0x5C"

definition lbrace :: char where
  "lbrace = CHR ''{''"

definition rbrace :: char where
  "rbrace = CHR ''}''"

text \<open>\<^verbatim>\<open>text[i]\<close>\<close>

definition py_index :: "string \<Rightarrow> int \<Rightarrow> py_error + char" where
  "py_index text i =
     (let n = int (length text); j = (if i < 0 then n + i else i)
      in if 0 \<le> j \<and> j < n then Inr (text ! nat j) else Inl IndexError)"

text \<open>The bound of a slice, clipped to the string as Python does.\<close>

definition slice_bound :: "string \<Rightarrow> int \<Rightarrow> nat" where
  "slice_bound text k =
     (let n = int (length text)
      in if k < 0 then nat (max 0 (n + k)) else nat (min k n))"

text \<open>\<^verbatim>\<open>text[i:j]\<close> and \<^verbatim>\<open>text[i:]\<close>\<close>

definition py_slice :: "string \<Rightarrow> int \<Rightarrow> int \<Rightarrow> string" where
  "py_slice text i j =
     take (slice_bound text j - slice_bound text i) (drop (slice_bound text i) text)"

definition py_slice_from :: "string \<Rightarrow> int \<Rightarrow> string" where
  "py_slice_from text i = drop (slice_bound text i) text"

section \<open>\<^verbatim>\<open>find_matching_brace\<close>\<close>

text \<open>
  The inner loop of \<^verbatim>\<open>find_matching_brace\<close>:
  \<^verbatim>\<open>while temp_pos >= 0 and text[temp_pos] == '\\': num_backslashes += 1; temp_pos -= 1\<close>
\<close>

function count_backslashes :: "string \<Rightarrow> int \<Rightarrow> nat \<Rightarrow> py_error + nat" where
  "count_backslashes text temp_pos num_backslashes =
     (if temp_pos \<ge> 0 then
        (case py_index text temp_pos of
           Inl e \<Rightarrow> Inl e
         | Inr c \<Rightarrow>
             if c = backslash
             then count_backslashes text (temp_pos - 1) (num_backslashes + 1)
             else Inr num_backslashes)
      else Inr num_backslashes)"
  by pat_completeness auto
termination
  by (relation "measure (\<lambda>(text, temp_pos, n). nat (temp_pos + 1))") auto

text \<open>The update of \<^verbatim>\<open>count\<close> in one iteration of the outer loop.\<close>

definition update_count :: "char \<Rightarrow> nat \<Rightarrow> int \<Rightarrow> int" where
  "update_count c num_backslashes count =
     (let is_escaped = (num_backslashes mod 2 = 1)
      in if \<not> is_escaped then
           (if c = lbrace then count + 1
            else if c = rbrace then count - 1
            else count)
         else count)"

text \<open>
  The outer loop \<^verbatim>\<open>while pos < len(text) and count > 0\<close>; it returns the final
  \<^verbatim>\<open>(pos, count)\<close>.
\<close>

function brace_loop :: "string \<Rightarrow> int \<Rightarrow> int \<Rightarrow> py_error + (int \<times> int)" where
  "brace_loop text pos count =
     (if pos < int (length text) \<and> count > 0 then
        (case py_index text pos of
           Inl e \<Rightarrow> Inl e
         | Inr c \<Rightarrow>
             (case count_backslashes text (pos - 1) 0 of
                Inl e \<Rightarrow> Inl e
              | Inr nb \<Rightarrow> brace_loop text (pos + 1) (update_count c nb count)))
      else Inr (pos, count))"
  by pat_completeness auto
termination
  by (relation "measure (\<lambda>(text, pos, count). nat (int (length text) - pos))") auto

definition find_matching_brace :: "string \<Rightarrow> int \<Rightarrow> py_error + int" where
  "find_matching_brace text start_pos =
     (if text = [] \<or> start_pos \<ge> int (length text) then Inr (- 1)
      else
        (case brace_loop text start_pos 1 of
           Inl e \<Rightarrow> Inl e
         | Inr (pos, count) \<Rightarrow> Inr (if count = 0 then pos else - 1)))"

section \<open>\<^verbatim>\<open>extract_latex_args\<close>\<close>

text \<open>\<^verbatim>\<open>c in ' \n\t'\<close> for a one-character string \<open>c\<close>.\<close>

definition is_skip_char :: "char \<Rightarrow> bool" where
  "is_skip_char c = (c = CHR '' '' \<or> c = CHR 0x0A \<or> c = CHR 0x09)"

text \<open>\<^verbatim>\<open>while pos < len(text) and text[pos] in ' \n\t': pos += 1\<close>\<close>

function skip_ws :: "string \<Rightarrow> int \<Rightarrow> py_error + int" where
  "skip_ws text pos =
     (if pos < int (length text) then
        (case py_index text pos of
           Inl e \<Rightarrow> Inl e
         | Inr c \<Rightarrow> if is_skip_char c then skip_ws text (pos + 1) else Inr pos)
      else Inr pos)"
  by pat_completeness auto
termination
  by (relation "measure (\<lambda>(text, pos). nat (int (length text) - pos))") auto

text \<open>
  The \<^verbatim>\<open>for arg_num in range(1, num_args + 1)\<close> loop, with the number of iterations
  still to run. The first component of the result is \<open>None\<close> for Python's \<^verbatim>\<open>None\<close>.
\<close>

fun extract_loop ::
  "string \<Rightarrow> int \<Rightarrow> nat \<Rightarrow> int \<Rightarrow> string list \<Rightarrow> py_error + (string list option \<times> int)" where
  "extract_loop text start 0 pos args = Inr (Some args, pos)"
| "extract_loop text start (Suc k) pos args =
     (case skip_ws text pos of
        Inl e \<Rightarrow> Inl e
      | Inr pos1 \<Rightarrow>
          if pos1 \<ge> int (length text) then Inr (None, start)
          else
            (case py_index text pos1 of
               Inl e \<Rightarrow> Inl e
             | Inr c \<Rightarrow>
                 if c \<noteq> lbrace then Inr (None, start)
                 else
                   (case find_matching_brace text (pos1 + 1) of
                      Inl e \<Rightarrow> Inl e
                    | Inr end_pos \<Rightarrow>
                        if end_pos = - 1 then Inr (None, start)
                        else extract_loop text start k end_pos
                               (args @ [py_slice text (pos1 + 1) (end_pos - 1)]))))"

definition extract_latex_args ::
  "string \<Rightarrow> int \<Rightarrow> int \<Rightarrow> py_error + (string list option \<times> int)" where
  "extract_latex_args text start num_args =
     (if text = [] \<or> start \<ge> int (length text) \<or> num_args \<le> 0 then Inr (None, start)
      else extract_loop text start (nat num_args) start [])"

section \<open>The two regular expressions\<close>

text \<open>
  \<^verbatim>\<open>re.search\<close> with a pattern that is a literal string: the leftmost occurrence, as
  the pair of \<^verbatim>\<open>match.start()\<close> and \<^verbatim>\<open>match.end()\<close>.
\<close>

fun re_search_literal :: "string \<Rightarrow> string \<Rightarrow> (nat \<times> nat) option" where
  "re_search_literal pat [] = (if pat = [] then Some (0, 0) else None)"
| "re_search_literal pat (c # cs) =
     (if prefix pat (c # cs) then Some (0, length pat)
      else map_option (\<lambda>(s, e). (Suc s, Suc e)) (re_search_literal pat cs))"

text \<open>The pattern \<^verbatim>\<open>r'\\cventry'\<close>: a backslash followed by \<^verbatim>\<open>cventry\<close>.\<close>

definition cventry_marker :: string where
  "cventry_marker = backslash # ''cventry''"

text \<open>
  The pattern \<^verbatim>\<open>r'\\href\{([^}]+)\}\{([^}]+)\}'\<close>. A group \<^verbatim>\<open>[^}]+\<close> is followed by a
  literal \<^verbatim>\<open>}\<close>, so the only way to match is to take every character up to the next
  \<^verbatim>\<open>}\<close>, and at least one; backtracking to a shorter group leaves a character other
  than \<^verbatim>\<open>}\<close> where the \<^verbatim>\<open>}\<close> is required. \<open>href_match_here\<close> matches the
  pattern at the beginning of its argument and returns the two groups.
\<close>

definition href_open :: string where
  "href_open = backslash # ''href{''"

definition href_match_here :: "string \<Rightarrow> (string \<times> string) option" where
  "href_match_here s =
     (if prefix href_open s then
        (let r1 = drop (length href_open) s;
             g1 = takeWhile (\<lambda>c. c \<noteq> rbrace) r1;
             r2 = dropWhile (\<lambda>c. c \<noteq> rbrace) r1
         in if g1 \<noteq> [] \<and> prefix [rbrace, lbrace] r2 then
              (let r3 = drop 2 r2;
                   g2 = takeWhile (\<lambda>c. c \<noteq> rbrace) r3;
                   r4 = dropWhile (\<lambda>c. c \<noteq> rbrace) r3
               in if g2 \<noteq> [] \<and> prefix [rbrace] r4 then Some (g1, g2) else None)
            else None)
      else None)"

text \<open>\<^verbatim>\<open>re.search\<close> tries the start positions from left to right.\<close>

fun re_search_href :: "string \<Rightarrow> (string \<times> string) option" where
  "re_search_href [] = href_match_here []"
| "re_search_href (c # cs) =
     (case href_match_here (c # cs) of
        Some g \<Rightarrow> Some g
      | None \<Rightarrow> re_search_href cs)"

section \<open>\<^verbatim>\<open>parse_cventry\<close>\<close>

text \<open>
  The characters \<^verbatim>\<open>str.strip()\<close> removes: those for which \<^verbatim>\<open>str.isspace\<close> holds, here
  the ones with code point below 256.
\<close>

definition py_isspace :: "char \<Rightarrow> bool" where
  "py_isspace c =
     (let n = (of_char c :: nat)
      in (9 \<le> n \<and> n \<le> 13) \<or> (28 \<le> n \<and> n \<le> 32) \<or> n = 133 \<or> n = 160)"

definition py_strip :: "string \<Rightarrow> string" where
  "py_strip s = rev (dropWhile py_isspace (rev (dropWhile py_isspace s)))"

text \<open>The dictionary appended to \<^verbatim>\<open>entries\<close>: its five keys are fixed.\<close>

record entry =
  title :: string
  tech :: string
  link_url :: string
  link_text :: string
  content :: string

text \<open>
  Lines 244 to 261: the four arguments are unpacked, the third is searched for the
  link, and every field is stripped.
\<close>

definition make_entry :: "string list \<Rightarrow> entry" where
  "make_entry args =
     (let title = args ! 0; tech = args ! 1; link_content = args ! 2; content = args ! 3;
          (url, link_text) =
            (case re_search_href link_content of
               Some (g1, g2) \<Rightarrow> (g1, g2)
             | None \<Rightarrow> ([], link_content))
      in \<lparr> title = py_strip title, tech = py_strip tech, link_url = py_strip url,
           link_text = py_strip link_text, content = py_strip content \<rparr>)"

text \<open>
  One iteration of the \<^verbatim>\<open>while True\<close> loop at cursor \<open>pos\<close>: the loop ends
  (\<open>Stop\<close>), an entry is appended and the cursor moves to \<^verbatim>\<open>end_pos\<close> (\<open>Emit\<close>), or
  the occurrence is skipped and the cursor moves to \<^verbatim>\<open>match_pos + 1\<close> (\<open>Skip\<close>).
\<close>

datatype scan_step_result = Stop | Emit entry int | Skip int

definition scan_step :: "string \<Rightarrow> int \<Rightarrow> py_error + scan_step_result" where
  "scan_step text pos =
     (case re_search_literal cventry_marker (py_slice_from text pos) of
        None \<Rightarrow> Inr Stop
      | Some (m_start, m_end) \<Rightarrow>
          (let match_pos = pos + int m_end
           in case extract_latex_args text match_pos 4 of
                Inl e \<Rightarrow> Inl e
              | Inr (args, end_pos) \<Rightarrow>
                  (case args of
                     None \<Rightarrow> Inr (Skip (match_pos + 1))
                   | Some as \<Rightarrow>
                       if as \<noteq> [] \<and> length as = 4 then Inr (Emit (make_entry as) end_pos)
                       else Inr (Skip (match_pos + 1)))))"

text \<open>
  The loop itself. Nothing in its text bounds the number of iterations, so it is a
  partial function: \<open>None\<close> stands for a loop that never ends, \<open>Some (Inl e)\<close> for an
  exception, \<open>Some (Inr entries)\<close> for the returned list.
\<close>

partial_function (option) scan_loop ::
  "string \<Rightarrow> int \<Rightarrow> entry list \<Rightarrow> (py_error + entry list) option" where
  "scan_loop text pos entries =
     (case scan_step text pos of
        Inl e \<Rightarrow> Some (Inl e)
      | Inr Stop \<Rightarrow> Some (Inr entries)
      | Inr (Emit e end_pos) \<Rightarrow> scan_loop text end_pos (entries @ [e])
      | Inr (Skip next_pos) \<Rightarrow> scan_loop text next_pos entries)"

declare scan_loop.simps [code]

text \<open>
  \<^verbatim>\<open>parse_cventry\<close>. Its argument is \<open>None\<close> for Python's \<^verbatim>\<open>None\<close>, which the
  caller passes on when the file could not be read; \<^verbatim>\<open>not text\<close> holds for \<^verbatim>\<open>None\<close>
  and for the empty string.
\<close>

definition parse_cventry :: "string option \<Rightarrow> (py_error + entry list) option" where
  "parse_cventry text =
     (case text of
        None \<Rightarrow> Some (Inr [])
      | Some t \<Rightarrow> if t = [] then Some (Inr []) else scan_loop t 0 [])"

section \<open>Notions of the specification\<close>

text \<open>
  The specification speaks of the backslashes that precede a character, of escaped
  characters and of the running brace depth. These definitions follow its words; the
  theorems below compare them with the functions above.
\<close>

text \<open>The number of consecutive backslashes immediately before index \<open>i\<close>.\<close>

definition preceding_backslashes :: "string \<Rightarrow> nat \<Rightarrow> nat" where
  "preceding_backslashes text i = length (takeWhile (\<lambda>c. c = backslash) (rev (take i text)))"

text \<open>A character is escaped when that number is odd.\<close>

definition is_escaped_at :: "string \<Rightarrow> nat \<Rightarrow> bool" where
  "is_escaped_at text i = odd (preceding_backslashes text i)"

text \<open>What the character at index \<open>i\<close> adds to the depth.\<close>

definition brace_delta :: "string \<Rightarrow> nat \<Rightarrow> int" where
  "brace_delta text i =
     (if is_escaped_at text i then 0
      else if text ! i = lbrace then 1
      else if text ! i = rbrace then - 1
      else 0)"

text \<open>
  The depth after the characters at \<open>s, \<dots>, p - 1\<close> have been scanned, starting from 1
  for the opening brace already consumed.
\<close>

definition brace_depth :: "string \<Rightarrow> nat \<Rightarrow> nat \<Rightarrow> int" where
  "brace_depth text s p = 1 + sum_list (map (brace_delta text) [s..<p])"

text \<open>The characters strictly between the indices \<open>ob\<close> and \<open>cb\<close>.\<close>

definition arg_between :: "string \<Rightarrow> nat \<Rightarrow> nat \<Rightarrow> string" where
  "arg_between text ob cb = take (cb - Suc ob) (drop (Suc ob) text)"

text \<open>
  The closing brace at \<open>cb\<close> matches the opening brace at \<open>ob\<close>: it is an unescaped
  \<^verbatim>\<open>}\<close>, the depth counted from just after \<open>ob\<close> is zero after it and positive
  everywhere before it.
\<close>

definition matching_close :: "string \<Rightarrow> nat \<Rightarrow> nat \<Rightarrow> bool" where
  "matching_close text ob cb =
     (ob < cb \<and> cb < length text \<and> text ! cb = rbrace \<and> \<not> is_escaped_at text cb \<and>
      brace_depth text (Suc ob) (Suc cb) = 0 \<and>
      (\<forall>p\<in>{Suc ob..cb}. brace_depth text (Suc ob) p > 0))"

text \<open>
  The arguments of a command, read from position \<open>p\<close>: each span is an opening brace
  and its matching closing brace, only space, newline and tab stand between \<open>p\<close> (or
  the previous closing brace) and the opening brace, and \<open>e\<close> is the position
  immediately after the last closing brace.
\<close>

fun arg_chain :: "string \<Rightarrow> nat \<Rightarrow> (nat \<times> nat) list \<Rightarrow> nat \<Rightarrow> bool" where
  "arg_chain text p [] e = (e = p)"
| "arg_chain text p ((ob, cb) # spans) e =
     (p \<le> ob \<and> (\<forall>i\<in>{p..<ob}. is_skip_char (text ! i)) \<and> ob < length text \<and>
      text ! ob = lbrace \<and> matching_close text ob cb \<and> arg_chain text (Suc cb) spans e)"

text \<open>The marker \<^verbatim>\<open>\cventry\<close> stands at index \<open>m\<close> of the text.\<close>

definition marker_at :: "string \<Rightarrow> nat \<Rightarrow> bool" where
  "marker_at text m = prefix cventry_marker (drop m text)"

text \<open>
  A marker occurrence at \<open>m\<close> is well formed when four arguments can be extracted
  right after it; \<open>occurrence\<close> is then its record and the position after its fourth
  argument, and \<open>None\<close> otherwise.
\<close>

definition occurrence :: "string \<Rightarrow> nat \<Rightarrow> (entry \<times> nat) option" where
  "occurrence text m =
     (if marker_at text m then
        (case extract_latex_args text (int m + 8) 4 of
           Inl e \<Rightarrow> None
         | Inr (res, end_pos) \<Rightarrow>
             (case res of
                None \<Rightarrow> None
              | Some as \<Rightarrow> Some (make_entry as, nat end_pos)))
      else None)"

text \<open>
  The positions \<open>ms\<close> are well-formed occurrences with the records and end positions
  \<open>occs\<close>, in document order: the first starts at or after \<open>p\<close>, each next one at or
  after the end of the one before.
\<close>

fun in_order :: "string \<Rightarrow> nat \<Rightarrow> nat list \<Rightarrow> (entry \<times> nat) list \<Rightarrow> bool" where
  "in_order text p [] [] = True"
| "in_order text p (m # ms) (oc # occs) =
     (p \<le> m \<and> occurrence text m = Some oc \<and> in_order text (snd oc) ms occs)"
| "in_order text p [] (oc # occs) = False"
| "in_order text p (m # ms) [] = False"

text \<open>
  Every well-formed occurrence from \<open>p\<close> on is one of \<open>ms\<close>, or begins inside the
  text consumed for one of them, or begins immediately after another marker.
\<close>

definition covers :: "string \<Rightarrow> nat \<Rightarrow> nat list \<Rightarrow> (entry \<times> nat) list \<Rightarrow> bool" where
  "covers text p ms occs =
     (\<forall>q\<ge>p. occurrence text q \<noteq> None \<longrightarrow>
        q \<in> set ms \<or> (\<exists>(m, oc)\<in>set (zip ms occs). m < q \<and> q < snd oc) \<or>
        (p + 8 \<le> q \<and> marker_at text (q - 8)))"

text \<open>A string with no whitespace at either end.\<close>

definition trimmed :: "string \<Rightarrow> bool" where
  "trimmed s = (s = [] \<or> (\<not> py_isspace (hd s) \<and> \<not> py_isspace (last s)))"

text \<open>
  A link wrapper stands at index \<open>k\<close> of \<open>s\<close>: the text \<^verbatim>\<open>\href{\<close>, a URL, \<^verbatim>\<open>}{\<close>,
  a label and \<^verbatim>\<open>}\<close>, where URL and label are not empty and contain no \<^verbatim>\<open>}\<close>.
\<close>

definition href_at :: "string \<Rightarrow> nat \<Rightarrow> string \<Rightarrow> string \<Rightarrow> bool" where
  "href_at s k url label =
     (url \<noteq> [] \<and> label \<noteq> [] \<and> rbrace \<notin> set url \<and> rbrace \<notin> set label \<and>
      prefix (href_open @ url @ [rbrace, lbrace] @ label @ [rbrace]) (drop k s))"

section \<open>The brace matcher\<close>

text \<open>
  The recursive equations of the loops are used one unfolding at a time.
\<close>

declare count_backslashes.simps [simp del] brace_loop.simps [simp del] skip_ws.simps [simp del]

lemma py_index_nat: "p < length text \<Longrightarrow> py_index text (int p) = Inr (text ! p)"
  by (simp add: py_index_def)

lemma preceding_backslashes_0: "preceding_backslashes text 0 = 0"
  by (simp add: preceding_backslashes_def)

lemma preceding_backslashes_Suc:
  "p < length text \<Longrightarrow>
   preceding_backslashes text (Suc p) =
     (if text ! p = backslash then Suc (preceding_backslashes text p) else 0)"
  by (simp add: preceding_backslashes_def take_Suc_conv_app_nth)

lemma count_backslashes_eq:
  "p \<le> length text \<Longrightarrow>
   count_backslashes text (int p - 1) n = Inr (n + preceding_backslashes text p)"
proof (induction p arbitrary: n)
  case 0
  show ?case by (subst count_backslashes.simps) (simp add: preceding_backslashes_0)
next
  case (Suc p)
  then have lt: "p < length text" by simp
  have "count_backslashes text (int (Suc p) - 1) n = count_backslashes text (int p) n"
    by simp
  also have "\<dots> = (if text ! p = backslash then count_backslashes text (int p - 1) (n + 1)
                    else Inr n)"
    by (subst count_backslashes.simps) (simp add: py_index_nat lt)
  also have "\<dots> = Inr (n + preceding_backslashes text (Suc p))"
    using Suc.IH [of "n + 1"] lt by (simp add: preceding_backslashes_Suc)
  finally show ?case .
qed

lemma update_count_delta:
  "update_count (text ! p) (preceding_backslashes text p) c = c + brace_delta text p"
  by (auto simp: update_count_def brace_delta_def is_escaped_at_def odd_iff_mod_2_eq_one)

lemma brace_loop_step:
  assumes "p < length text" "c > 0"
  shows "brace_loop text (int p) c = brace_loop text (int p + 1) (c + brace_delta text p)"
proof -
  have cb: "count_backslashes text (int p - 1) 0 = Inr (preceding_backslashes text p)"
    using count_backslashes_eq [of p "text" 0] assms by simp
  show ?thesis
    by (subst brace_loop.simps) (simp add: assms py_index_nat cb update_count_delta)
qed

lemma brace_loop_stop:
  "\<not> (p < length text \<and> c > 0) \<Longrightarrow> brace_loop text (int p) c = Inr (int p, c)"
  by (subst brace_loop.simps) auto

lemma brace_delta_bounds: "- 1 \<le> brace_delta text i \<and> brace_delta text i \<le> 1"
  by (simp add: brace_delta_def)

lemma brace_loop_result:
  "p \<le> length text \<Longrightarrow> c > 0 \<Longrightarrow>
   \<exists>q c'. brace_loop text (int p) c = Inr (int q, c') \<and> p \<le> q \<and> q \<le> length text \<and>
          c' = c + sum_list (map (brace_delta text) [p..<q]) \<and>
          (\<forall>r. p \<le> r \<and> r < q \<longrightarrow> c + sum_list (map (brace_delta text) [p..<r]) > 0) \<and>
          ((c' = 0 \<and> p < q) \<or> (q = length text \<and> c' > 0))"
proof (induction "length text - p" arbitrary: p c)
  case 0
  then have "p = length text" by simp
  then show ?case using brace_loop_stop [of p "text" c] "0.prems" by auto
next
  case (Suc n)
  then have lt: "p < length text" by simp
  let ?c1 = "c + brace_delta text p"
  have step: "brace_loop text (int p) c = brace_loop text (int (Suc p)) ?c1"
    using brace_loop_step [OF lt \<open>c > 0\<close>] by (simp add: add.commute)
  have c1_ge: "?c1 \<ge> 0" using brace_delta_bounds [of "text" p] \<open>c > 0\<close> by linarith
  show ?case
  proof (cases "?c1 = 0")
    case True
    have "brace_loop text (int (Suc p)) ?c1 = Inr (int (Suc p), ?c1)"
      by (rule brace_loop_stop) (simp add: True)
    with step True lt \<open>c > 0\<close> show ?thesis
      by (intro exI [of _ "Suc p"] exI [of _ "0"]) (auto simp: le_Suc_eq)
  next
    case False
    with c1_ge have pos: "?c1 > 0" by simp
    have "n = length text - Suc p" using Suc.hyps(2) by simp
    from Suc.hyps(1) [OF this _ pos] lt
    obtain q c' where q: "brace_loop text (int (Suc p)) ?c1 = Inr (int q, c')"
      "Suc p \<le> q" "q \<le> length text"
      "c' = ?c1 + sum_list (map (brace_delta text) [Suc p..<q])"
      "\<forall>r. Suc p \<le> r \<and> r < q \<longrightarrow> ?c1 + sum_list (map (brace_delta text) [Suc p..<r]) > 0"
      "(c' = 0 \<and> Suc p < q) \<or> (q = length text \<and> c' > 0)"
      by auto
    have split: "\<And>r. p < r \<Longrightarrow> [p..<r] = p # [Suc p..<r]"
      by (simp add: upt_conv_Cons)
    have a: "c' = c + sum_list (map (brace_delta text) [p..<q])"
      using q(2,4) by (simp add: split)
    have b: "\<forall>r. p \<le> r \<and> r < q \<longrightarrow> c + sum_list (map (brace_delta text) [p..<r]) > 0"
    proof (intro allI impI)
      fix r assume r: "p \<le> r \<and> r < q"
      show "c + sum_list (map (brace_delta text) [p..<r]) > 0"
      proof (cases "r = p")
        case True then show ?thesis using \<open>c > 0\<close> by simp
      next
        case False
        with r have "p < r" by simp
        then show ?thesis using q(5) r by (simp add: split add.assoc)
      qed
    qed
    from q(6) q(2) have c: "(c' = 0 \<and> p < q) \<or> (q = length text \<and> c' > 0)" by auto
    show ?thesis
      using step q(1) q(2) q(3) a b c by (intro exI [of _ q] exI [of _ c']) auto
  qed
qed

lemma brace_delta_neg:
  "brace_delta text i < 0 \<Longrightarrow> text ! i = rbrace \<and> \<not> is_escaped_at text i"
  by (auto simp: brace_delta_def split: if_splits)

lemma brace_depth_Suc: "s \<le> p \<Longrightarrow> brace_depth text s (Suc p) = brace_depth text s p + brace_delta text p"
  by (simp add: brace_depth_def)

lemma brace_depth_self: "brace_depth text s s = 1"
  by (simp add: brace_depth_def)

lemma find_matching_brace_spec:
  assumes "0 \<le> start_pos"
  shows "\<exists>r. find_matching_brace text start_pos = Inr r \<and>
     (r = - 1 \<longleftrightarrow>
        (\<forall>p. nat start_pos \<le> p \<and> p \<le> length text \<longrightarrow> brace_depth text (nat start_pos) p \<noteq> 0)) \<and>
     (r \<noteq> - 1 \<longrightarrow>
        start_pos < r \<and> r \<le> int (length text) \<and>
        text ! (nat r - 1) = rbrace \<and> \<not> is_escaped_at text (nat r - 1) \<and>
        brace_depth text (nat start_pos) (nat r) = 0 \<and>
        (\<forall>p. nat start_pos \<le> p \<and> p < nat r \<longrightarrow> brace_depth text (nat start_pos) p > 0))"
proof -
  define s where "s = nat start_pos"
  have sp: "start_pos = int s" using assms by (simp add: s_def)
  show ?thesis
  proof (cases "text = [] \<or> start_pos \<ge> int (length text)")
    case True
    then have ge: "length text \<le> s" using sp by auto
    have r: "find_matching_brace text start_pos = Inr (- 1)"
      using True by (simp add: find_matching_brace_def)
    have "\<forall>p. s \<le> p \<and> p \<le> length text \<longrightarrow> brace_depth text s p \<noteq> 0"
    proof (intro allI impI)
      fix p assume "s \<le> p \<and> p \<le> length text"
      with ge have "p = s" by simp
      then show "brace_depth text s p \<noteq> 0" by (simp add: brace_depth_self)
    qed
    with r show ?thesis unfolding s_def [symmetric] by simp
  next
    case False
    then have lt: "s < length text" using sp by simp
    from brace_loop_result [of s "text" 1] lt
    obtain q c' where q: "brace_loop text (int s) 1 = Inr (int q, c')" "s \<le> q" "q \<le> length text"
      "c' = brace_depth text s q"
      "\<forall>r. s \<le> r \<and> r < q \<longrightarrow> brace_depth text s r > 0"
      "(c' = 0 \<and> s < q) \<or> (q = length text \<and> c' > 0)"
      unfolding brace_depth_def by auto
    have res: "find_matching_brace text start_pos = Inr (if c' = 0 then int q else - 1)"
      using False q(1) by (simp add: find_matching_brace_def sp)
    show ?thesis
    proof (cases "c' = 0")
      case True
      with q(6) have sq: "s < q" by auto
      then obtain q' where q': "q = Suc q'" "s \<le> q'" by (cases q) auto
      have "brace_depth text s q' > 0" using q(5) q' by simp
      moreover have "brace_depth text s q = brace_depth text s q' + brace_delta text q'"
        using q' by (simp add: brace_depth_Suc)
      ultimately have "brace_delta text q' < 0" using True q(4) by simp
      then have "text ! q' = rbrace \<and> \<not> is_escaped_at text q'"
        by (rule brace_delta_neg)
      then have last: "text ! (q - 1) = rbrace \<and> \<not> is_escaped_at text (q - 1)"
        using q'(1) by simp
      have nall: "\<not> (\<forall>p. s \<le> p \<and> p \<le> length text \<longrightarrow> brace_depth text s p \<noteq> 0)"
        using q(2,3,4) True by auto
      show ?thesis
        unfolding s_def [symmetric]
        using res True sq q(3) q(4) q(5) last nall sp
        by (intro exI [of _ "int q"]) simp
    next
      case False
      with q(6) have qe: "q = length text" "c' > 0" by auto
      have "\<forall>p. s \<le> p \<and> p \<le> length text \<longrightarrow> brace_depth text s p \<noteq> 0"
      proof (intro allI impI)
        fix p assume p: "s \<le> p \<and> p \<le> length text"
        show "brace_depth text s p \<noteq> 0"
        proof (cases "p < q")
          case True
          with q(5) p show ?thesis by fastforce
        next
          case False
          with p qe have "p = q" by simp
          with qe q(4) show ?thesis by simp
        qed
      qed
      with res False show ?thesis unfolding s_def [symmetric] by simp
    qed
  qed
qed

lemma brace_loop_iteration:
  assumes "0 \<le> pos" "pos < int (length text)" "count > 0"
  shows "count_backslashes text (pos - 1) 0 = Inr (preceding_backslashes text (nat pos)) \<and>
     brace_loop text pos count =
       brace_loop text (pos + 1)
         (if odd (preceding_backslashes text (nat pos)) then count
          else if text ! nat pos = lbrace then count + 1
          else if text ! nat pos = rbrace then count - 1
          else count)"
proof -
  define p where "p = nat pos"
  have pp: "pos = int p" "p < length text" using assms by (simp_all add: p_def)
  have a: "count_backslashes text (int p - 1) 0 = Inr (preceding_backslashes text p)"
    using count_backslashes_eq [of p "text" 0] pp by simp
  have b: "brace_loop text (int p) count = brace_loop text (int p + 1) (count + brace_delta text p)"
    using brace_loop_step [of p "text" count] pp assms by simp
  show ?thesis
    unfolding p_def [symmetric] pp(1)
    using a b by (simp add: brace_delta_def is_escaped_at_def)
qed

lemma escaped_rbrace_does_not_close:
  assumes "0 \<le> start_pos" "is_escaped_at text i"
  shows "find_matching_brace text start_pos \<noteq> Inr (int i + 1)"
proof
  assume eq: "find_matching_brace text start_pos = Inr (int i + 1)"
  from find_matching_brace_spec [OF assms(1), of "text"] eq
  have "\<not> is_escaped_at text (nat (int i + 1) - 1)" by auto
  moreover have "nat (int i + 1) - 1 = i" by linarith
  ultimately show False using assms(2) by simp
qed

subsection \<open>Claims about the brace matcher\<close>

text \<open>
  Claim C1, for a start position that is not negative (\<open>0 \<le> start_pos\<close>).
  \<open>find_matching_brace\<close> returns without raising. It returns \<open>-1\<close> exactly when
  the running depth, which starts at 1, is never zero at any position from the start to
  the end of the text. When it returns another value \<open>r\<close>, then \<open>r\<close> lies after the
  start and within the text, the character at \<open>r - 1\<close> is an unescaped closing brace,
  the depth after it is zero, and the depth is positive at every earlier position: \<open>r\<close>
  is the index immediately after the closing brace that brings the depth to zero for the
  first time.
\<close>

theorem find_matching_brace_depth:
  assumes "0 \<le> start_pos"
  shows "\<exists>r. find_matching_brace text start_pos = Inr r \<and>
     (r = - 1 \<longleftrightarrow>
        (\<forall>p. nat start_pos \<le> p \<and> p \<le> length text \<longrightarrow> brace_depth text (nat start_pos) p \<noteq> 0)) \<and>
     (r \<noteq> - 1 \<longrightarrow>
        start_pos < r \<and> r \<le> int (length text) \<and>
        text ! (nat r - 1) = rbrace \<and> \<not> is_escaped_at text (nat r - 1) \<and>
        brace_depth text (nat start_pos) (nat r) = 0 \<and>
        (\<forall>p. nat start_pos \<le> p \<and> p < nat r \<longrightarrow> brace_depth text (nat start_pos) p > 0))"
  using assms by (rule find_matching_brace_spec)

theorem find_matching_brace_depth_witness:
  "(0::int) \<le> 7 \<and>
   find_matching_brace ''hello {world {nested} text} end'' 7 = Inr 27 \<and>
   ''hello {world {nested} text} end'' ! 26 = rbrace \<and>
   \<not> is_escaped_at ''hello {world {nested} text} end'' 26 \<and>
   brace_depth ''hello {world {nested} text} end'' 7 27 = 0 \<and>
   brace_depth ''hello {world {nested} text} end'' 7 21 > 0"
proof -
  let ?T = "''hello {world {nested} text} end''"
  have e: "find_matching_brace ?T 7 = Inr 27" by code_simp
  have h: "(0::int) \<le> 7" by simp
  from find_matching_brace_depth [OF h, of ?T] e
  have "?T ! (nat 27 - 1) = rbrace \<and> \<not> is_escaped_at ?T (nat 27 - 1) \<and>
        brace_depth ?T (nat 7) (nat 27) = 0 \<and>
        (\<forall>p. nat 7 \<le> p \<and> p < nat 27 \<longrightarrow> brace_depth ?T (nat 7) p > 0)"
    by auto
  then have "?T ! 26 = rbrace \<and> \<not> is_escaped_at ?T 26 \<and> brace_depth ?T 7 27 = 0 \<and>
        brace_depth ?T 7 21 > 0"
    by (simp add: rbrace_def)
  with e show ?thesis by (simp add: rbrace_def)
qed

text \<open>
  Claim C1 as stated, for every start position, fails: a negative start position is not
  rejected. On \<^verbatim>\<open>}\<close> with start \<open>-1\<close> the result is \<open>0\<close>, the index of the closing brace
  itself and not the one after it; on \<^verbatim>\<open>{a}x\<close> with start \<open>-3\<close> the count reaches zero
  at the closing brace, and the position returned for it is \<open>-1\<close>, the failure value.
\<close>

theorem find_matching_brace_negative_end:
  "find_matching_brace ''}'' (- 1) = Inr 0 \<and>
   find_matching_brace ''{a}x'' (- 3) = Inr (- 1) \<and>
   brace_loop ''{a}x'' (- 3) 1 = Inr (- 1, 0)"
proof -
  have a: "find_matching_brace ''}'' (- 1) = Inr 0" by code_simp
  have b: "find_matching_brace ''{a}x'' (- 3) = Inr (- 1)" by code_simp
  have c: "brace_loop ''{a}x'' (- 3) 1 = Inr (- 1, 0)" by code_simp
  show ?thesis by (rule conjI [OF a conjI [OF b c]])
qed

text \<open>
  Claim C2, for positions that are not negative. At every such position the outer
  loop scans, the inner loop counts exactly the
  consecutive backslashes immediately before that position; the iteration leaves the
  depth unchanged when that number is odd, and otherwise adds one for an opening brace
  and subtracts one for a closing brace. A character with an odd number of backslashes
  before it never ends the match. The witness runs the two examples of the
  specification: a closing brace after one backslash does not close, an opening brace
  after two backslashes counts.
\<close>

theorem escape_parity:
  assumes "0 \<le> pos" "pos < int (length text)" "count > 0"
  shows "count_backslashes text (pos - 1) 0 = Inr (preceding_backslashes text (nat pos)) \<and>
     brace_loop text pos count =
       brace_loop text (pos + 1)
         (if odd (preceding_backslashes text (nat pos)) then count
          else if text ! nat pos = lbrace then count + 1
          else if text ! nat pos = rbrace then count - 1
          else count) \<and>
     (odd (preceding_backslashes text (nat pos)) \<longrightarrow>
        (\<forall>start_pos\<ge>0. find_matching_brace text start_pos \<noteq> Inr (pos + 1)))"
proof -
  have "\<forall>start_pos\<ge>0. find_matching_brace text start_pos \<noteq> Inr (pos + 1)"
    if "odd (preceding_backslashes text (nat pos))"
  proof (intro allI impI)
    fix start_pos :: int assume "0 \<le> start_pos"
    moreover have "is_escaped_at text (nat pos)" using that by (simp add: is_escaped_at_def)
    ultimately have "find_matching_brace text start_pos \<noteq> Inr (int (nat pos) + 1)"
      by (rule escaped_rbrace_does_not_close)
    then show "find_matching_brace text start_pos \<noteq> Inr (pos + 1)" using assms(1) by simp
  qed
  with brace_loop_iteration [OF assms] show ?thesis by blast
qed

theorem escape_parity_witness:
  "(0::int) \<le> 3 \<and> 3 < int (length (''{a'' @ [backslash] @ ''}b}'')) \<and> (0::int) < 1 \<and>
   count_backslashes (''{a'' @ [backslash] @ ''}b}'') 2 0 = Inr 1 \<and>
   brace_loop (''{a'' @ [backslash] @ ''}b}'') 3 1 = brace_loop (''{a'' @ [backslash] @ ''}b}'') 4 1 \<and>
   find_matching_brace (''{a'' @ [backslash] @ ''}b}'') 1 \<noteq> Inr 4 \<and>
   find_matching_brace (''{a'' @ [backslash] @ ''}b}'') 1 = Inr 6 \<and>
   (0::int) \<le> 2 \<and> 2 < int (length ([backslash, backslash] @ ''{a}}'')) \<and>
   count_backslashes ([backslash, backslash] @ ''{a}}'') 1 0 = Inr 2 \<and>
   brace_loop ([backslash, backslash] @ ''{a}}'') 2 1 = brace_loop ([backslash, backslash] @ ''{a}}'') 3 2 \<and>
   find_matching_brace ([backslash, backslash] @ ''{a}}'') 0 = Inr 6"
proof -
  let ?T = "''{a'' @ [backslash] @ ''}b}''"
  let ?U = "[backslash, backslash] @ ''{a}}''"
  have h: "(0::int) \<le> 3" "3 < int (length ?T)" "(0::int) < 1" by simp_all
  have pT: "preceding_backslashes ?T 3 = 1"
    by (simp add: preceding_backslashes_def backslash_def)
  have k: "(0::int) \<le> 2" "2 < int (length ?U)" by simp_all
  have pU: "preceding_backslashes ?U 2 = 2"
    by (simp add: preceding_backslashes_def backslash_def)
  have uU: "?U ! 2 = lbrace" by (simp add: lbrace_def)
  from escape_parity [OF h] pT
  have a: "count_backslashes ?T 2 0 = Inr 1" "brace_loop ?T 3 1 = brace_loop ?T 4 1"
    "find_matching_brace ?T 1 \<noteq> Inr 4"
    by simp_all
  from escape_parity [OF k h(3)] pU uU
  have b: "count_backslashes ?U 1 0 = Inr 2" "brace_loop ?U 2 1 = brace_loop ?U 3 2"
    by simp_all
  have c: "find_matching_brace ?T 1 = Inr 6" by code_simp
  have d: "find_matching_brace ?U 0 = Inr 6" by code_simp
  show ?thesis using h k a b c d by simp
qed

text \<open>
  Claim C2 as stated, for every position scanned, fails: at a negative position the
  inner loop does not run (\<^verbatim>\<open>temp_pos >= 0\<close> is false at once) and counts no backslash.
  On the two characters backslash, \<^verbatim>\<open>}\<close> with start \<open>-1\<close> the closing brace has one
  backslash before it, the loop counts none, and the brace ends the match.
\<close>

theorem escaped_brace_closes_at_negative_position:
  "py_index [backslash, rbrace] (- 1) = Inr rbrace \<and>
   preceding_backslashes [backslash, rbrace] 1 = 1 \<and>
   count_backslashes [backslash, rbrace] (- 1 - 1) 0 = Inr 0 \<and>
   find_matching_brace [backslash, rbrace] (- 1) = Inr 0"
proof -
  have a: "py_index [backslash, rbrace] (- 1) = Inr rbrace" by code_simp
  have b: "preceding_backslashes [backslash, rbrace] 1 = 1" by code_simp
  have c: "count_backslashes [backslash, rbrace] (- 1 - 1) 0 = Inr 0" by code_simp
  have d: "find_matching_brace [backslash, rbrace] (- 1) = Inr 0" by code_simp
  show ?thesis by (rule conjI [OF a conjI [OF b conjI [OF c d]]])
qed

text \<open>
  Claim C7, as the code has it. The guard of \<open>find_matching_brace\<close> rejects the empty
  text and every start position at or beyond the end of the text. It has no lower bound:
  a negative start position is used as a Python index from the end of the text, and one
  below \<open>- len(text)\<close> raises \<^verbatim>\<open>IndexError\<close>.
\<close>

theorem find_matching_brace_guard:
  "(text = [] \<or> start_pos \<ge> int (length text) \<longrightarrow> find_matching_brace text start_pos = Inr (- 1)) \<and>
   (text \<noteq> [] \<and> start_pos < - int (length text) \<longrightarrow>
      find_matching_brace text start_pos = Inl IndexError)"
proof (intro conjI impI)
  assume "text = [] \<or> start_pos \<ge> int (length text)"
  then show "find_matching_brace text start_pos = Inr (- 1)"
    by (simp add: find_matching_brace_def)
next
  assume a: "text \<noteq> [] \<and> start_pos < - int (length text)"
  then have "py_index text start_pos = Inl IndexError"
    by (simp add: py_index_def)
  then have "brace_loop text start_pos 1 = Inl IndexError"
    using a by (subst brace_loop.simps) simp
  then show "find_matching_brace text start_pos = Inl IndexError"
    using a by (simp add: find_matching_brace_def)
qed

theorem find_matching_brace_guard_witness:
  "find_matching_brace [] 0 = Inr (- 1) \<and> find_matching_brace ''hello {world'' 12 = Inr (- 1) \<and>
   find_matching_brace ''a'' (- 2) = Inl IndexError"
  using find_matching_brace_guard [of "[]" 0] find_matching_brace_guard [of "''hello {world''" 12]
    find_matching_brace_guard [of "''a''" "- 2"]
  by simp

text \<open>
  Claim C7 as stated fails: \<open>-1\<close> is not within \<open>0 \<le> start_pos\<close>, and the call does not
  return \<open>-1\<close>.
\<close>

theorem find_matching_brace_negative_start:
  "\<not> (0 \<le> (- 1 :: int)) \<and> find_matching_brace ''}'' (- 1) = Inr 0 \<and>
   find_matching_brace ''}'' (- 1) \<noteq> Inr (- 1)"
proof -
  have "find_matching_brace ''}'' (- 1) = Inr 0" by code_simp
  then show ?thesis by simp
qed

section \<open>The argument extractor\<close>

lemma skip_ws_result:
  "\<exists>q. skip_ws text (int p) = Inr (int q) \<and> p \<le> q \<and>
       (\<forall>i\<in>{p..<q}. is_skip_char (text ! i)) \<and>
       (q < length text \<longrightarrow> \<not> is_skip_char (text ! q)) \<and>
       (p \<le> length text \<longrightarrow> q \<le> length text)"
proof (induction "length text - p" arbitrary: p)
  case 0
  then have "skip_ws text (int p) = Inr (int p)"
    by (subst skip_ws.simps) simp
  with 0 show ?case by (intro exI [of _ p]) auto
next
  case (Suc n)
  then have lt: "p < length text" by simp
  show ?case
  proof (cases "is_skip_char (text ! p)")
    case False
    then have "skip_ws text (int p) = Inr (int p)"
      using lt by (subst skip_ws.simps) (simp add: py_index_nat)
    with False lt show ?thesis by (intro exI [of _ p]) auto
  next
    case True
    have step: "skip_ws text (int p) = skip_ws text (int (Suc p))"
      using lt True by (subst skip_ws.simps) (simp add: py_index_nat add.commute)
    have "n = length text - Suc p" using Suc.hyps(2) by simp
    from Suc.hyps(1) [OF this]
    obtain q where q: "skip_ws text (int (Suc p)) = Inr (int q)" "Suc p \<le> q"
      "\<forall>i\<in>{Suc p..<q}. is_skip_char (text ! i)"
      "q < length text \<longrightarrow> \<not> is_skip_char (text ! q)"
      "Suc p \<le> length text \<longrightarrow> q \<le> length text"
      by blast
    have "\<forall>i\<in>{p..<q}. is_skip_char (text ! i)"
    proof
      fix i assume "i \<in> {p..<q}"
      then have "i = p \<or> i \<in> {Suc p..<q}" by auto
      with True q(3) show "is_skip_char (text ! i)" by auto
    qed
    with step q lt show ?thesis by (intro exI [of _ q]) auto
  qed
qed

lemma py_slice_between:
  assumes "ob < cb" "cb < length text"
  shows "py_slice text (int ob + 1) (int cb) = arg_between text ob cb"
proof -
  have a: "slice_bound text (int ob + 1) = Suc ob"
    using assms by (simp add: slice_bound_def Let_def min_def)
  have b: "slice_bound text (int cb) = cb"
    using assms by (simp add: slice_bound_def Let_def min_def)
  show ?thesis by (simp add: py_slice_def a b arg_between_def)
qed

lemma find_matching_brace_close:
  assumes "ob < length text"
  shows "find_matching_brace text (int ob + 1) = Inr (- 1) \<or>
     (\<exists>cb. find_matching_brace text (int ob + 1) = Inr (int cb + 1) \<and> matching_close text ob cb)"
proof -
  have nn: "0 \<le> int ob + 1" by simp
  have s: "nat (int ob + 1) = Suc ob" by simp
  from find_matching_brace_spec [OF nn, of "text"]
  obtain r where r: "find_matching_brace text (int ob + 1) = Inr r"
    "r \<noteq> - 1 \<longrightarrow> int ob + 1 < r \<and> r \<le> int (length text) \<and>
        text ! (nat r - 1) = rbrace \<and> \<not> is_escaped_at text (nat r - 1) \<and>
        brace_depth text (Suc ob) (nat r) = 0 \<and>
        (\<forall>p. Suc ob \<le> p \<and> p < nat r \<longrightarrow> brace_depth text (Suc ob) p > 0)"
    unfolding s by blast
  show ?thesis
  proof (cases "r = - 1")
    case True
    with r(1) show ?thesis by simp
  next
    case False
    with r(2) have p: "int ob + 1 < r" "r \<le> int (length text)"
      "text ! (nat r - 1) = rbrace" "\<not> is_escaped_at text (nat r - 1)"
      "brace_depth text (Suc ob) (nat r) = 0"
      "\<forall>p. Suc ob \<le> p \<and> p < nat r \<longrightarrow> brace_depth text (Suc ob) p > 0"
      by auto
    define cb where "cb = nat r - 1"
    have rc: "r = int cb + 1" "nat r = Suc cb" using p(1) by (simp_all add: cb_def)
    have "matching_close text ob cb"
      unfolding matching_close_def
      using p rc by (auto simp: cb_def [symmetric])
    with r(1) rc show ?thesis by auto
  qed
qed

lemma extract_loop_result:
  "\<exists>res e. extract_loop text start k (int p) args = Inr (res, e) \<and>
     (res = None \<longrightarrow> e = start) \<and>
     (\<forall>as. res = Some as \<longrightarrow>
        (\<exists>spans. length spans = k \<and>
           as = args @ map (\<lambda>(ob, cb). arg_between text ob cb) spans \<and>
           arg_chain text p spans (nat e) \<and> int p + 2 * int k \<le> e \<and>
           (0 < k \<longrightarrow> e \<le> int (length text))))"
proof (induction k arbitrary: p args)
  case 0
  show ?case by (intro exI [of _ "Some args"] exI [of _ "int p"]) simp
next
  case (Suc k)
  from skip_ws_result [of "text" p]
  obtain q where q: "skip_ws text (int p) = Inr (int q)" "p \<le> q"
    "\<forall>i\<in>{p..<q}. is_skip_char (text ! i)"
    by blast
  have fail: "extract_loop text start (Suc k) (int p) args = Inr (None, start) \<Longrightarrow> ?case"
    by simp
  show ?case
  proof (cases "q < length text \<and> text ! q = lbrace")
    case False
    then have "extract_loop text start (Suc k) (int p) args = Inr (None, start)"
      using q(1) by (auto simp: py_index_nat)
    then show ?thesis by (rule fail)
  next
    case True
    then have lt: "q < length text" and lb: "text ! q = lbrace" by simp_all
    have unfold: "extract_loop text start (Suc k) (int p) args =
        (case find_matching_brace text (int q + 1) of
           Inl e \<Rightarrow> Inl e
         | Inr end_pos \<Rightarrow>
             if end_pos = - 1 then Inr (None, start)
             else extract_loop text start k end_pos
                    (args @ [py_slice text (int q + 1) (end_pos - 1)]))"
      using q(1) lt lb by (simp add: py_index_nat)
    from find_matching_brace_close [OF lt]
    show ?thesis
    proof
      assume "find_matching_brace text (int q + 1) = Inr (- 1)"
      with unfold have "extract_loop text start (Suc k) (int p) args = Inr (None, start)"
        by simp
      then show ?thesis by (rule fail)
    next
      assume "\<exists>cb. find_matching_brace text (int q + 1) = Inr (int cb + 1) \<and>
                   matching_close text q cb"
      then obtain cb where cb: "find_matching_brace text (int q + 1) = Inr (int cb + 1)"
        "matching_close text q cb" by blast
      then have qc: "q < cb" "cb < length text" by (simp_all add: matching_close_def)
      let ?args = "args @ [arg_between text q cb]"
      have step: "extract_loop text start (Suc k) (int p) args =
          extract_loop text start k (int (Suc cb)) ?args"
        using unfold cb(1) py_slice_between [OF qc] by (simp add: add.commute)
      from Suc.IH [of "Suc cb" ?args]
      obtain res e where r: "extract_loop text start k (int (Suc cb)) ?args = Inr (res, e)"
        "res = None \<longrightarrow> e = start"
        "\<forall>as. res = Some as \<longrightarrow>
          (\<exists>spans. length spans = k \<and>
             as = ?args @ map (\<lambda>(ob, cb). arg_between text ob cb) spans \<and>
             arg_chain text (Suc cb) spans (nat e) \<and> int (Suc cb) + 2 * int k \<le> e \<and>
             (0 < k \<longrightarrow> e \<le> int (length text)))"
        by blast
      have "\<exists>spans. length spans = Suc k \<and>
             as = args @ map (\<lambda>(ob, cb). arg_between text ob cb) spans \<and>
             arg_chain text p spans (nat e) \<and> int p + 2 * int (Suc k) \<le> e \<and>
             (0 < Suc k \<longrightarrow> e \<le> int (length text))"
        if "res = Some as" for as
      proof -
        from r(3) that obtain spans where s: "length spans = k"
          "as = ?args @ map (\<lambda>(ob, cb). arg_between text ob cb) spans"
          "arg_chain text (Suc cb) spans (nat e)" "int (Suc cb) + 2 * int k \<le> e"
          "0 < k \<longrightarrow> e \<le> int (length text)"
          by blast
        have e_le: "e \<le> int (length text)"
        proof (cases k)
          case 0
          with s(1,3) qc show ?thesis by simp
        next
          case (Suc k')
          with s(5) show ?thesis by simp
        qed
        show ?thesis
          using s q(2,3) lt lb cb(2) qc e_le
          by (intro exI [of _ "(q, cb) # spans"]) simp
      qed
      with step r(1,2) show ?thesis by (intro exI [of _ res] exI [of _ e]) simp
    qed
  qed
qed

lemma extract_latex_args_result:
  assumes "0 \<le> start"
  shows "\<exists>res e. extract_latex_args text start num_args = Inr (res, e) \<and>
     (res = None \<longrightarrow> e = start) \<and>
     (text = [] \<or> start \<ge> int (length text) \<or> num_args \<le> 0 \<longrightarrow> res = None) \<and>
     (\<forall>as. res = Some as \<longrightarrow>
        1 \<le> num_args \<and> length as = nat num_args \<and>
        (\<exists>spans. length spans = nat num_args \<and>
           as = map (\<lambda>(ob, cb). arg_between text ob cb) spans \<and>
           arg_chain text (nat start) spans (nat e) \<and>
           start + 2 * num_args \<le> e \<and> e \<le> int (length text)))"
proof (cases "text = [] \<or> start \<ge> int (length text) \<or> num_args \<le> 0")
  case True
  then have "extract_latex_args text start num_args = Inr (None, start)"
    by (simp add: extract_latex_args_def)
  with True show ?thesis by simp
next
  case False
  then have eq: "extract_latex_args text start num_args =
      extract_loop text start (nat num_args) (int (nat start)) []"
    using assms by (simp add: extract_latex_args_def)
  from extract_loop_result [of "text" start "nat num_args" "nat start" "[]"]
  obtain res e where r: "extract_loop text start (nat num_args) (int (nat start)) [] = Inr (res, e)"
    "res = None \<longrightarrow> e = start"
    "\<forall>as. res = Some as \<longrightarrow>
       (\<exists>spans. length spans = nat num_args \<and>
          as = [] @ map (\<lambda>(ob, cb). arg_between text ob cb) spans \<and>
          arg_chain text (nat start) spans (nat e) \<and>
          int (nat start) + 2 * int (nat num_args) \<le> e \<and>
          (0 < nat num_args \<longrightarrow> e \<le> int (length text)))"
    by blast
  have "1 \<le> num_args \<and> length as = nat num_args \<and>
        (\<exists>spans. length spans = nat num_args \<and>
           as = map (\<lambda>(ob, cb). arg_between text ob cb) spans \<and>
           arg_chain text (nat start) spans (nat e) \<and>
           start + 2 * num_args \<le> e \<and> e \<le> int (length text))"
    if "res = Some as" for as
  proof -
    from r(3) that obtain spans where s: "length spans = nat num_args"
      "as = map (\<lambda>(ob, cb). arg_between text ob cb) spans"
      "arg_chain text (nat start) spans (nat e)"
      "int (nat start) + 2 * int (nat num_args) \<le> e"
      "0 < nat num_args \<longrightarrow> e \<le> int (length text)"
      by auto
    have n: "1 \<le> num_args" using False by simp
    then have "start + 2 * num_args \<le> e" "e \<le> int (length text)"
      using s(4,5) assms by simp_all
    with s n show ?thesis by auto
  qed
  with eq r(1,2) False show ?thesis
    by (intro exI [of _ res] exI [of _ e]) simp
qed

lemma skip_ws_exact:
  assumes "\<forall>i\<in>{p..<ob}. is_skip_char (text ! i)" "p \<le> ob" "ob < length text"
    "\<not> is_skip_char (text ! ob)"
  shows "skip_ws text (int p) = Inr (int ob)"
proof -
  from skip_ws_result [of "text" p]
  obtain q where q: "skip_ws text (int p) = Inr (int q)" "p \<le> q"
    "\<forall>i\<in>{p..<q}. is_skip_char (text ! i)"
    "q < length text \<longrightarrow> \<not> is_skip_char (text ! q)"
    "p \<le> length text \<longrightarrow> q \<le> length text"
    by blast
  have "\<not> q < ob"
  proof
    assume lt: "q < ob"
    with q(2) have "q \<in> {p..<ob}" by simp
    with assms(1) have "is_skip_char (text ! q)" by blast
    moreover have "q < length text" using lt assms(3) by simp
    ultimately show False using q(4) by simp
  qed
  moreover have "\<not> ob < q"
  proof
    assume "ob < q"
    with assms(2) have "ob \<in> {p..<q}" by simp
    with q(3) have "is_skip_char (text ! ob)" by blast
    with assms(4) show False by simp
  qed
  ultimately have "q = ob" by simp
  with q(1) show ?thesis by simp
qed

lemma lbrace_not_skip: "\<not> is_skip_char lbrace"
  by (simp add: is_skip_char_def lbrace_def)

lemma matching_close_unique:
  assumes "matching_close text ob cb" "matching_close text ob cb'"
  shows "cb = cb'"
proof -
  have less: "\<not> a < b" if "matching_close text ob a" "matching_close text ob b" for a b
  proof
    assume "a < b"
    moreover from that(1) have "ob < a" "brace_depth text (Suc ob) (Suc a) = 0"
      by (simp_all add: matching_close_def)
    ultimately have "Suc a \<in> {Suc ob..b}" by simp
    with that(2) have "brace_depth text (Suc ob) (Suc a) > 0"
      unfolding matching_close_def by blast
    with \<open>brace_depth text (Suc ob) (Suc a) = 0\<close> show False by simp
  qed
  from less [OF assms] less [OF assms(2) assms(1)] show ?thesis by simp
qed

lemma find_matching_brace_complete:
  assumes "ob < length text" "matching_close text ob cb"
  shows "find_matching_brace text (int ob + 1) = Inr (int cb + 1)"
proof -
  have nn: "0 \<le> int ob + 1" by simp
  have s: "nat (int ob + 1) = Suc ob" by simp
  from assms(2) have c: "ob < cb" "cb < length text" "brace_depth text (Suc ob) (Suc cb) = 0"
    by (simp_all add: matching_close_def)
  from find_matching_brace_spec [OF nn, of "text"]
  obtain r where r: "find_matching_brace text (int ob + 1) = Inr r"
    "r = - 1 \<longleftrightarrow>
       (\<forall>p. Suc ob \<le> p \<and> p \<le> length text \<longrightarrow> brace_depth text (Suc ob) p \<noteq> 0)"
    unfolding s by blast
  have "r \<noteq> - 1"
  proof
    assume "r = - 1"
    with r(2) have "\<forall>p. Suc ob \<le> p \<and> p \<le> length text \<longrightarrow> brace_depth text (Suc ob) p \<noteq> 0"
      by simp
    moreover have "Suc ob \<le> Suc cb \<and> Suc cb \<le> length text" using c by simp
    ultimately have "brace_depth text (Suc ob) (Suc cb) \<noteq> 0" by blast
    with c(3) show False by simp
  qed
  with find_matching_brace_close [OF assms(1)] r(1)
  obtain cb' where cb': "find_matching_brace text (int ob + 1) = Inr (int cb' + 1)"
    "matching_close text ob cb'" by auto
  from matching_close_unique [OF assms(2) cb'(2)] cb'(1) show ?thesis by simp
qed

lemma extract_loop_complete:
  "arg_chain text p spans e \<Longrightarrow>
   extract_loop text start (length spans) (int p) args =
     Inr (Some (args @ map (\<lambda>(ob, cb). arg_between text ob cb) spans), int e)"
proof (induction spans arbitrary: p args)
  case Nil
  then show ?case by simp
next
  case (Cons sp spans)
  obtain ob cb where sp: "sp = (ob, cb)" by (cases sp)
  from Cons.prems sp have h: "p \<le> ob" "\<forall>i\<in>{p..<ob}. is_skip_char (text ! i)"
    "ob < length text" "text ! ob = lbrace" "matching_close text ob cb"
    "arg_chain text (Suc cb) spans e"
    by simp_all
  have ns: "\<not> is_skip_char (text ! ob)" using h(4) lbrace_not_skip by simp
  have sk: "skip_ws text (int p) = Inr (int ob)"
    using h(2) h(1) h(3) ns by (rule skip_ws_exact)
  have fm: "find_matching_brace text (int ob + 1) = Inr (int cb + 1)"
    using h(3) h(5) by (rule find_matching_brace_complete)
  from h(5) have qc: "ob < cb" "cb < length text" by (simp_all add: matching_close_def)
  have step: "extract_loop text start (Suc (length spans)) (int p) args =
      extract_loop text start (length spans) (int (Suc cb)) (args @ [arg_between text ob cb])"
    using sk h(3) h(4) fm py_slice_between [OF qc]
    by (simp add: py_index_nat add.commute)
  from Cons.IH [OF h(6), of "args @ [arg_between text ob cb]"] step sp
  show ?case by simp
qed

lemma arg_chain_start:
  "arg_chain text p spans e \<Longrightarrow> spans \<noteq> [] \<Longrightarrow> p < length text"
proof (cases spans)
  case Nil
  assume "spans \<noteq> []"
  with Nil show ?thesis by simp
next
  case (Cons sp rest)
  assume a: "arg_chain text p spans e"
  obtain ob cb where "sp = (ob, cb)" by (cases sp)
  with a Cons show ?thesis by simp
qed

lemma extract_latex_args_complete:
  assumes "0 \<le> start" "1 \<le> num_args" "length spans = nat num_args"
    "arg_chain text (nat start) spans e"
  shows "extract_latex_args text start num_args =
     Inr (Some (map (\<lambda>(ob, cb). arg_between text ob cb) spans), int e)"
proof -
  have ne: "spans \<noteq> []" using assms(2,3) by auto
  from arg_chain_start [OF assms(4) ne] have lt: "nat start < length text" .
  then have g: "\<not> (text = [] \<or> start \<ge> int (length text) \<or> num_args \<le> 0)"
    using assms(1,2) by auto
  have "extract_latex_args text start num_args =
      extract_loop text start (length spans) (int (nat start)) []"
    using g assms(1,3) by (simp add: extract_latex_args_def)
  also have "\<dots> = Inr (Some ([] @ map (\<lambda>(ob, cb). arg_between text ob cb) spans), int e)"
    using assms(4) by (rule extract_loop_complete)
  finally show ?thesis by simp
qed

subsection \<open>Claims about the argument extractor\<close>

text \<open>
  Claim C3, for a start position that is not negative. \<open>extract_latex_args\<close> succeeds
  with the strings \<open>args\<close> and the cursor \<open>end_pos\<close> exactly when \<open>num_args \<ge> 1\<close> and
  there are \<open>num_args\<close> brace pairs, one after the other from \<open>start\<close>, each preceded
  only by a run of space, newline and tab, each closing brace the match of its opening
  brace, such that \<open>args\<close> are, in order, the texts strictly between the two braces of
  each pair and \<open>end_pos\<close> is the position immediately after the last closing brace.
  A successful call returns exactly \<open>num_args\<close> strings and a cursor past \<open>start\<close> and
  within the text. The witness derives the result on a text with a space, a newline and
  a tab between the arguments from its brace pairs, and runs the example of the
  specification.
\<close>

theorem extract_latex_args_success:
  assumes "0 \<le> start"
  shows "(extract_latex_args text start num_args = Inr (Some args, end_pos) \<longleftrightarrow>
       1 \<le> num_args \<and> 0 \<le> end_pos \<and>
       (\<exists>spans. length spans = nat num_args \<and>
          args = map (\<lambda>(ob, cb). arg_between text ob cb) spans \<and>
          arg_chain text (nat start) spans (nat end_pos))) \<and>
     (extract_latex_args text start num_args = Inr (Some args, end_pos) \<longrightarrow>
       length args = nat num_args \<and> start < end_pos \<and> end_pos \<le> int (length text))"
proof -
  have sound: "1 \<le> num_args \<and> length args = nat num_args \<and>
        (\<exists>spans. length spans = nat num_args \<and>
           args = map (\<lambda>(ob, cb). arg_between text ob cb) spans \<and>
           arg_chain text (nat start) spans (nat end_pos) \<and>
           start + 2 * num_args \<le> end_pos \<and> end_pos \<le> int (length text))"
    if "extract_latex_args text start num_args = Inr (Some args, end_pos)"
    using extract_latex_args_result [OF assms, of "text" num_args] that by auto
  have complete: "extract_latex_args text start num_args = Inr (Some args, end_pos)"
    if r: "1 \<le> num_args \<and> 0 \<le> end_pos \<and>
       (\<exists>spans. length spans = nat num_args \<and>
          args = map (\<lambda>(ob, cb). arg_between text ob cb) spans \<and>
          arg_chain text (nat start) spans (nat end_pos))"
  proof -
    from r obtain spans where s: "length spans = nat num_args"
      "args = map (\<lambda>(ob, cb). arg_between text ob cb) spans"
      "arg_chain text (nat start) spans (nat end_pos)" by blast
    from r have n: "1 \<le> num_args" "0 \<le> end_pos" by simp_all
    from extract_latex_args_complete [OF assms n(1) s(1) s(3)] s(2) n(2)
    show ?thesis by simp
  qed
  have a: "extract_latex_args text start num_args = Inr (Some args, end_pos) \<longleftrightarrow>
       1 \<le> num_args \<and> 0 \<le> end_pos \<and>
       (\<exists>spans. length spans = nat num_args \<and>
          args = map (\<lambda>(ob, cb). arg_between text ob cb) spans \<and>
          arg_chain text (nat start) spans (nat end_pos))"
  proof
    assume e: "extract_latex_args text start num_args = Inr (Some args, end_pos)"
    from sound [OF e] assms show "1 \<le> num_args \<and> 0 \<le> end_pos \<and>
       (\<exists>spans. length spans = nat num_args \<and>
          args = map (\<lambda>(ob, cb). arg_between text ob cb) spans \<and>
          arg_chain text (nat start) spans (nat end_pos))"
      by auto
  next
    assume "1 \<le> num_args \<and> 0 \<le> end_pos \<and>
       (\<exists>spans. length spans = nat num_args \<and>
          args = map (\<lambda>(ob, cb). arg_between text ob cb) spans \<and>
          arg_chain text (nat start) spans (nat end_pos))"
    then show "extract_latex_args text start num_args = Inr (Some args, end_pos)"
      by (rule complete)
  qed
  have b: "extract_latex_args text start num_args = Inr (Some args, end_pos) \<longrightarrow>
       length args = nat num_args \<and> start < end_pos \<and> end_pos \<le> int (length text)"
  proof
    assume e: "extract_latex_args text start num_args = Inr (Some args, end_pos)"
    from sound [OF e] show "length args = nat num_args \<and> start < end_pos \<and>
        end_pos \<le> int (length text)"
      by auto
  qed
  from a b show ?thesis by (rule conjI)
qed

theorem extract_latex_args_success_witness:
  "(0::int) \<le> 8 \<and>
   arg_chain (cventry_marker @ ''{Title} {Tech}'' @ [CHR 0x0A, CHR 0x09] @ ''{Link}{Content}'')
     (nat 8) [(8, 14), (16, 21), (24, 29), (30, 38)] (nat 39) \<and>
   extract_latex_args
     (cventry_marker @ ''{Title} {Tech}'' @ [CHR 0x0A, CHR 0x09] @ ''{Link}{Content}'') 8 4 =
     Inr (Some [''Title'', ''Tech'', ''Link'', ''Content''], 39) \<and>
   extract_latex_args (cventry_marker @ ''{Title}{Tech}{Link}{Content}'') 8 4 =
     Inr (Some [''Title'', ''Tech'', ''Link'', ''Content''], 36) \<and>
   (\<exists>spans. length spans = nat 4 \<and>
      [''Title'', ''Tech'', ''Link'', ''Content''] =
        map (\<lambda>(ob, cb). arg_between (cventry_marker @ ''{Title}{Tech}{Link}{Content}'') ob cb) spans \<and>
      arg_chain (cventry_marker @ ''{Title}{Tech}{Link}{Content}'') (nat 8) spans (nat 36))"
proof -
  let ?W = "cventry_marker @ ''{Title} {Tech}'' @ [CHR 0x0A, CHR 0x09] @ ''{Link}{Content}''"
  let ?D = "cventry_marker @ ''{Title}{Tech}{Link}{Content}''"
  let ?S = "[(8, 14), (16, 21), (24, 29), (30, 38)] :: (nat \<times> nat) list"
  let ?A = "[''Title'', ''Tech'', ''Link'', ''Content'']"
  have h: "(0::int) \<le> 8" by simp
  have c: "arg_chain ?W (nat 8) ?S (nat 39)" by code_simp
  have m: "?A = map (\<lambda>(ob, cb). arg_between ?W ob cb) ?S" by code_simp
  have l: "length ?S = nat 4" by simp
  have r: "1 \<le> (4::int) \<and> (0::int) \<le> 39 \<and>
       (\<exists>spans. length spans = nat 4 \<and>
          ?A = map (\<lambda>(ob, cb). arg_between ?W ob cb) spans \<and>
          arg_chain ?W (nat 8) spans (nat 39))"
    using l m c by (intro conjI exI [of _ ?S]) simp_all
  from extract_latex_args_success [OF h, of ?W 4 ?A 39] r
  have w: "extract_latex_args ?W 8 4 = Inr (Some ?A, 39)" by blast
  have e: "extract_latex_args ?D 8 4 = Inr (Some ?A, 36)" by code_simp
  from extract_latex_args_success [OF h, of ?D 4 ?A 36] e
  have d: "\<exists>spans. length spans = nat 4 \<and>
      ?A = map (\<lambda>(ob, cb). arg_between ?D ob cb) spans \<and>
      arg_chain ?D (nat 8) spans (nat 36)" by blast
  show ?thesis by (rule conjI [OF h conjI [OF c conjI [OF w conjI [OF e d]]]])
qed

text \<open>
  Claim C3 as stated, for every start position, fails: the guard has no lower bound,
  a negative start is used as an index from the end of the text, and on \<^verbatim>\<open>{a}\<close> with
  start \<open>-3\<close> the call succeeds with the cursor \<open>0\<close>, which is not the position after
  the closing brace at index 2.
\<close>

theorem extract_latex_args_negative_cursor:
  "extract_latex_args ''{a}'' (- 3) 1 = Inr (Some [''a''], 0) \<and>
   arg_chain ''{a}'' 0 [(0, 2)] 3 \<and> \<not> arg_chain ''{a}'' 0 [(0, 2)] 0"
proof -
  have a: "extract_latex_args ''{a}'' (- 3) 1 = Inr (Some [''a''], 0)" by code_simp
  have b: "arg_chain ''{a}'' 0 [(0, 2)] 3" by code_simp
  have c: "\<not> arg_chain ''{a}'' 0 [(0, 2)] 0" by code_simp
  show ?thesis by (rule conjI [OF a conjI [OF b c]])
qed

text \<open>
  Claim C4, for a start position that is not negative. The call returns without
  raising; when it fails, the position it returns is the original \<open>start\<close>; it fails
  at once on the empty text, on a start at or beyond the end of the text and on
  \<open>num_args \<le> 0\<close>; and a list it returns is never partial, it has exactly \<open>num_args\<close>
  elements. The witness runs a text cut off inside the second argument, a text whose
  second argument lacks its opening brace, and the three guarded cases.
\<close>

theorem extract_latex_args_failure:
  assumes "0 \<le> start"
  shows "\<exists>res end_pos. extract_latex_args text start num_args = Inr (res, end_pos) \<and>
     (res = None \<longrightarrow> end_pos = start) \<and>
     (text = [] \<or> start \<ge> int (length text) \<or> num_args \<le> 0 \<longrightarrow> res = None) \<and>
     (\<forall>as. res = Some as \<longrightarrow> 1 \<le> num_args \<and> length as = nat num_args)"
proof -
  from extract_latex_args_result [OF assms, of "text" num_args]
  obtain res e where r: "extract_latex_args text start num_args = Inr (res, e)"
    "res = None \<longrightarrow> e = start"
    "text = [] \<or> start \<ge> int (length text) \<or> num_args \<le> 0 \<longrightarrow> res = None"
    "\<forall>as. res = Some as \<longrightarrow> 1 \<le> num_args \<and> length as = nat num_args"
    by blast
  then show ?thesis by blast
qed

theorem extract_latex_args_failure_witness:
  "(0::int) \<le> 8 \<and>
   extract_latex_args (backslash # ''cventry{Title}{Tech'') 8 4 = Inr (None, 8) \<and>
   extract_latex_args (backslash # ''cventry{Title} Tech'') 8 4 = Inr (None, 8) \<and>
   extract_latex_args [] 0 1 = Inr (None, 0) \<and>
   extract_latex_args ''{a}'' 7 1 = Inr (None, 7) \<and>
   extract_latex_args ''{a}'' 0 0 = Inr (None, 0)"
proof -
  have h: "(0::int) \<le> 8" "(0::int) \<le> 7" "(0::int) \<le> 0" by simp_all
  have a: "extract_latex_args (backslash # ''cventry{Title}{Tech'') 8 4 = Inr (None, 8)"
    by code_simp
  have b: "extract_latex_args (backslash # ''cventry{Title} Tech'') 8 4 = Inr (None, 8)"
    by code_simp
  from extract_latex_args_failure [OF h(3), of "[]" 1]
  have c: "extract_latex_args [] 0 1 = Inr (None, 0)" by auto
  from extract_latex_args_failure [OF h(2), of "''{a}''" 1]
  have d: "extract_latex_args ''{a}'' 7 1 = Inr (None, 7)" by auto
  from extract_latex_args_failure [OF h(3), of "''{a}''" 0]
  have e: "extract_latex_args ''{a}'' 0 0 = Inr (None, 0)" by auto
  show ?thesis using h a b c d e by simp
qed

text \<open>
  Claim C4 as stated, for every \<open>start\<close>, fails: the guard has no lower bound, and a
  start below \<open>- len(text)\<close> raises \<^verbatim>\<open>IndexError\<close> at the first \<^verbatim>\<open>text[pos]\<close> instead of
  returning the failure value and \<open>start\<close>.
\<close>

theorem extract_latex_args_negative_start:
  "extract_latex_args ''ab'' (- 5) 1 = Inl IndexError \<and> \<not> (0 \<le> (- 5 :: int))"
proof -
  have "extract_latex_args ''ab'' (- 5) 1 = Inl IndexError" by code_simp
  then show ?thesis by simp
qed

section \<open>The entry scanner\<close>

lemma re_search_literal_leftmost:
  "prefix pat (drop a s) \<Longrightarrow> a \<le> length s \<Longrightarrow> (\<forall>j<a. \<not> prefix pat (drop j s)) \<Longrightarrow>
   re_search_literal pat s = Some (a, a + length pat)"
proof (induction s arbitrary: a)
  case Nil
  then show ?case by simp
next
  case (Cons c cs)
  show ?case
  proof (cases a)
    case 0
    with Cons.prems show ?thesis by simp
  next
    case (Suc a')
    with Cons.prems have np: "\<not> prefix pat (c # cs)" by fastforce
    have "\<forall>j<a'. \<not> prefix pat (drop j cs)"
    proof (intro allI impI)
      fix j assume "j < a'"
      then have "Suc j < a" using Suc by simp
      with Cons.prems(3) have "\<not> prefix pat (drop (Suc j) (c # cs))" by blast
      then show "\<not> prefix pat (drop j cs)" by simp
    qed
    with Cons.IH [of a'] Cons.prems Suc
    have "re_search_literal pat cs = Some (a', a' + length pat)" by simp
    with np Suc show ?thesis by simp
  qed
qed

lemma re_search_literal_none:
  "(\<forall>j\<le>length s. \<not> prefix pat (drop j s)) \<Longrightarrow> re_search_literal pat s = None"
proof (induction s)
  case Nil
  then show ?case by auto
next
  case (Cons c cs)
  from Cons.prems have np: "\<not> prefix pat (c # cs)" by fastforce
  have "\<forall>j\<le>length cs. \<not> prefix pat (drop j cs)"
  proof (intro allI impI)
    fix j assume "j \<le> length cs"
    then have "Suc j \<le> length (c # cs)" by simp
    with Cons.prems have "\<not> prefix pat (drop (Suc j) (c # cs))" by blast
    then show "\<not> prefix pat (drop j cs)" by simp
  qed
  with Cons.IH np show ?case by simp
qed

lemma py_slice_from_nat: "py_slice_from text (int p) = drop p text"
  by (simp add: py_slice_from_def slice_bound_def Let_def min_def)

lemma length_cventry_marker: "length cventry_marker = 8"
  by (simp add: cventry_marker_def)

lemma marker_at_bound: "marker_at text m \<Longrightarrow> m + 8 \<le> length text"
proof -
  assume "marker_at text m"
  then have "length cventry_marker \<le> length (drop m text)"
    unfolding marker_at_def by (rule prefix_length_le)
  then show ?thesis by (simp add: length_cventry_marker)
qed

lemma marker_at_nth:
  assumes "marker_at text m" "i < 8"
  shows "text ! (m + i) = cventry_marker ! i"
proof -
  from assms(1) obtain zs where zs: "drop m text = cventry_marker @ zs"
    unfolding marker_at_def prefix_def by blast
  have "m + i < length text" using marker_at_bound [OF assms(1)] assms(2) by simp
  then have "text ! (m + i) = drop m text ! i" by simp
  also have "\<dots> = cventry_marker ! i"
    using zs assms(2) by (simp add: nth_append length_cventry_marker)
  finally show ?thesis .
qed

lemma cventry_marker_inner: "0 < i \<Longrightarrow> i < 8 \<Longrightarrow> cventry_marker ! i \<noteq> cventry_marker ! 0"
proof -
  assume "0 < i" "i < 8"
  then have "i = 1 \<or> i = 2 \<or> i = 3 \<or> i = 4 \<or> i = 5 \<or> i = 6 \<or> i = 7" by arith
  then show ?thesis by (auto simp: cventry_marker_def backslash_def)
qed

lemma marker_no_overlap:
  assumes "marker_at text m" "marker_at text q" "m < q"
  shows "m + 8 \<le> q"
proof (rule ccontr)
  assume "\<not> m + 8 \<le> q"
  with assms(3) have i: "0 < q - m" "q - m < 8" by simp_all
  have "text ! q = cventry_marker ! 0" using marker_at_nth [OF assms(2), of 0] by simp
  moreover have "text ! q = cventry_marker ! (q - m)"
    using marker_at_nth [OF assms(1) i(2)] assms(3) by simp
  ultimately show False using cventry_marker_inner [OF i] by simp
qed

lemma scan_step_stop:
  assumes "\<forall>q\<ge>p. \<not> marker_at text q"
  shows "scan_step text (int p) = Inr Stop"
proof -
  have "\<forall>j\<le>length (drop p text). \<not> prefix cventry_marker (drop j (drop p text))"
  proof (intro allI impI)
    fix j
    have "\<not> marker_at text (p + j)" using assms by simp
    then show "\<not> prefix cventry_marker (drop j (drop p text))"
      by (simp add: marker_at_def add.commute)
  qed
  then have "re_search_literal cventry_marker (drop p text) = None"
    by (rule re_search_literal_none)
  then show ?thesis by (simp add: scan_step_def py_slice_from_nat)
qed

lemma occurrence_cases:
  assumes "marker_at text m"
  shows "(extract_latex_args text (int m + 8) 4 = Inr (None, int m + 8) \<and>
          occurrence text m = None) \<or>
         (\<exists>as e. extract_latex_args text (int m + 8) 4 = Inr (Some as, int e) \<and>
            length as = 4 \<and> m + 16 \<le> e \<and> e \<le> length text \<and>
            occurrence text m = Some (make_entry as, e))"
proof -
  have nn: "0 \<le> int m + 8" by simp
  from extract_latex_args_result [OF nn, of "text" 4]
  obtain res e where r: "extract_latex_args text (int m + 8) 4 = Inr (res, e)"
    "res = None \<longrightarrow> e = int m + 8"
    "\<forall>as. res = Some as \<longrightarrow> length as = nat 4 \<and> int m + 8 + 2 * 4 \<le> e \<and> e \<le> int (length text)"
    by blast
  show ?thesis
  proof (cases res)
    case None
    with r assms show ?thesis by (simp add: occurrence_def)
  next
    case (Some as)
    with r(3) have p: "length as = 4" "int m + 16 \<le> e" "e \<le> int (length text)" by simp_all
    then have e: "e = int (nat e)" "m + 16 \<le> nat e" "nat e \<le> length text" by linarith+
    have "occurrence text m = Some (make_entry as, nat e)"
      using assms r(1) Some by (simp add: occurrence_def)
    with r(1) Some p(1) e show ?thesis by metis
  qed
qed

lemma scan_step_marker:
  assumes "marker_at text m" "p \<le> m" "\<forall>j\<in>{p..<m}. \<not> marker_at text j"
  shows "scan_step text (int p) =
     (case occurrence text m of
        None \<Rightarrow> Inr (Skip (int m + 9))
      | Some (en, e) \<Rightarrow> Inr (Emit en (int e)))"
proof -
  have bound: "m + 8 \<le> length text" using assms(1) by (rule marker_at_bound)
  have "prefix cventry_marker (drop (m - p) (drop p text))"
    using assms(1,2) by (simp add: marker_at_def)
  moreover have "m - p \<le> length (drop p text)" using bound assms(2) by simp
  moreover have "\<forall>j<m - p. \<not> prefix cventry_marker (drop j (drop p text))"
  proof (intro allI impI)
    fix j assume "j < m - p"
    then have "p + j \<in> {p..<m}" by simp
    with assms(3) have "\<not> marker_at text (p + j)" by blast
    then show "\<not> prefix cventry_marker (drop j (drop p text))"
      by (simp add: marker_at_def add.commute)
  qed
  ultimately have "re_search_literal cventry_marker (drop p text) =
      Some (m - p, m - p + length cventry_marker)"
    by (rule re_search_literal_leftmost)
  then have s: "re_search_literal cventry_marker (py_slice_from text (int p)) =
      Some (m - p, m - p + 8)"
    by (simp add: py_slice_from_nat length_cventry_marker)
  have mp: "int p + int (m - p + 8) = int m + 8" using assms(2) by simp
  from occurrence_cases [OF assms(1)]
  show ?thesis
  proof
    assume "extract_latex_args text (int m + 8) 4 = Inr (None, int m + 8) \<and>
            occurrence text m = None"
    then show ?thesis by (simp add: scan_step_def s mp del: of_nat_add)
  next
    assume "\<exists>as e. extract_latex_args text (int m + 8) 4 = Inr (Some as, int e) \<and>
            length as = 4 \<and> m + 16 \<le> e \<and> e \<le> length text \<and>
            occurrence text m = Some (make_entry as, e)"
    then obtain as e where a: "extract_latex_args text (int m + 8) 4 = Inr (Some as, int e)"
      "length as = 4" "occurrence text m = Some (make_entry as, e)"
      by blast
    then have "as \<noteq> []" by auto
    with a show ?thesis by (simp add: scan_step_def s mp del: of_nat_add)
  qed
qed

lemma leftmost_marker:
  assumes "\<exists>q\<ge>p. marker_at text q"
  shows "\<exists>m\<ge>p. marker_at text m \<and> (\<forall>j\<in>{p..<m}. \<not> marker_at text j)"
proof -
  define m where "m = (LEAST q. p \<le> q \<and> marker_at text q)"
  from assms obtain q where "p \<le> q \<and> marker_at text q" by blast
  then have "p \<le> m \<and> marker_at text m" unfolding m_def by (rule LeastI)
  moreover have "\<not> marker_at text j" if "j \<in> {p..<m}" for j
  proof
    assume "marker_at text j"
    with that have "p \<le> j \<and> marker_at text j" by simp
    then have "m \<le> j" unfolding m_def by (rule Least_le)
    with that show False by simp
  qed
  ultimately show ?thesis by blast
qed

lemma in_order_mono: "in_order text p' ms occs \<Longrightarrow> p \<le> p' \<Longrightarrow> in_order text p ms occs"
  by (cases "(text, p', ms, occs)" rule: in_order.cases) auto

lemma occurrence_marker: "occurrence text q \<noteq> None \<Longrightarrow> marker_at text q"
  by (auto simp: occurrence_def split: if_splits)

lemma scan_loop_result:
  "\<exists>ms occs. scan_loop text (int p) acc = Some (Inr (acc @ map fst occs)) \<and>
      in_order text p ms occs \<and> covers text p ms occs"
proof (induction "Suc (length text) - p" arbitrary: p acc rule: less_induct)
  case less
  show ?case
  proof (cases "\<exists>q\<ge>p. marker_at text q")
    case False
    then have "scan_step text (int p) = Inr Stop" by (intro scan_step_stop) blast
    then have "scan_loop text (int p) acc = Some (Inr acc)"
      by (subst scan_loop.simps) simp
    moreover have "covers text p [] []"
      unfolding covers_def using False occurrence_marker by blast
    ultimately show ?thesis by (intro exI [of _ "[]"]) simp
  next
    case True
    from leftmost_marker [OF True]
    obtain m where m: "p \<le> m" "marker_at text m" "\<forall>j\<in>{p..<m}. \<not> marker_at text j"
      by blast
    have bound: "m + 8 \<le> length text" using m(2) by (rule marker_at_bound)
    have step: "scan_step text (int p) =
       (case occurrence text m of
          None \<Rightarrow> Inr (Skip (int m + 9))
        | Some (en, e) \<Rightarrow> Inr (Emit en (int e)))"
      using m(2,1,3) by (rule scan_step_marker)
    have after: "m \<le> q" if "p \<le> q" "marker_at text q" for q
    proof (rule ccontr)
      assume "\<not> m \<le> q"
      with that(1) have "q \<in> {p..<m}" by simp
      with m(3) that(2) show False by blast
    qed
    show ?thesis
    proof (cases "occurrence text m")
      case None
      have c: "int (m + 9) = int m + 9" by simp
      have "scan_loop text (int p) acc = scan_loop text (int m + 9) acc"
        using step None by (subst scan_loop.simps) simp
      then have loop: "scan_loop text (int p) acc = scan_loop text (int (m + 9)) acc"
        by (simp only: c)
      have "Suc (length text) - (m + 9) < Suc (length text) - p" using m(1) bound by simp
      from less [OF this, of acc]
      obtain ms occs where r: "scan_loop text (int (m + 9)) acc = Some (Inr (acc @ map fst occs))"
        "in_order text (m + 9) ms occs" "covers text (m + 9) ms occs"
        by blast
      have io: "in_order text p ms occs" using m(1) by (intro in_order_mono [OF r(2)]) simp
      have "covers text p ms occs"
        unfolding covers_def
      proof (intro allI impI)
        fix q assume q: "p \<le> q" "occurrence text q \<noteq> None"
        then have mq: "marker_at text q" by (intro occurrence_marker)
        then have "m \<le> q" using q(1) by (intro after)
        moreover have "q \<noteq> m" using q(2) None by auto
        ultimately have "m < q" by simp
        with m(2) mq have ge: "m + 8 \<le> q" by (intro marker_no_overlap)
        show "q \<in> set ms \<or> (\<exists>(m, oc)\<in>set (zip ms occs). m < q \<and> q < snd oc) \<or>
              (p + 8 \<le> q \<and> marker_at text (q - 8))"
        proof (cases "q = m + 8")
          case True
          with m(1,2) show ?thesis by simp
        next
          case False
          with ge have "m + 9 \<le> q" by simp
          with r(3) q(2)
          have "q \<in> set ms \<or> (\<exists>(m, oc)\<in>set (zip ms occs). m < q \<and> q < snd oc) \<or>
              (m + 9 + 8 \<le> q \<and> marker_at text (q - 8))"
            unfolding covers_def by blast
          with m(1) show ?thesis by auto
        qed
      qed
      with loop r(1) io show ?thesis by (intro exI [of _ ms] exI [of _ occs]) simp
    next
      case (Some oc)
      obtain en e where oc: "oc = (en, e)" by (cases oc)
      from occurrence_cases [OF m(2)] Some oc
      have e: "m + 16 \<le> e" "e \<le> length text" by auto
      have loop: "scan_loop text (int p) acc = scan_loop text (int e) (acc @ [en])"
        using step Some oc by (subst scan_loop.simps) simp
      have "Suc (length text) - e < Suc (length text) - p" using m(1) e by simp
      from less [OF this, of "acc @ [en]"]
      obtain ms occs where r:
        "scan_loop text (int e) (acc @ [en]) = Some (Inr ((acc @ [en]) @ map fst occs))"
        "in_order text e ms occs" "covers text e ms occs"
        by blast
      have io: "in_order text p (m # ms) (oc # occs)"
        using m(1) Some oc r(2) by simp
      have "covers text p (m # ms) (oc # occs)"
        unfolding covers_def
      proof (intro allI impI)
        fix q assume q: "p \<le> q" "occurrence text q \<noteq> None"
        then have mq: "marker_at text q" by (intro occurrence_marker)
        then have mle: "m \<le> q" using q(1) by (intro after)
        show "q \<in> set (m # ms) \<or>
              (\<exists>(m, oc)\<in>set (zip (m # ms) (oc # occs)). m < q \<and> q < snd oc) \<or>
              (p + 8 \<le> q \<and> marker_at text (q - 8))"
        proof (cases "q < e")
          case True
          with mle oc show ?thesis by (cases "q = m") auto
        next
          case False
          then have "e \<le> q" by simp
          with r(3) q(2)
          have "q \<in> set ms \<or> (\<exists>(m, oc)\<in>set (zip ms occs). m < q \<and> q < snd oc) \<or>
              (e + 8 \<le> q \<and> marker_at text (q - 8))"
            unfolding covers_def by blast
          with m(1) e(1) show ?thesis by auto
        qed
      qed
      with loop r(1) io oc show ?thesis
        by (intro exI [of _ "m # ms"] exI [of _ "oc # occs"]) simp
    qed
  qed
qed

lemma parse_cventry_result:
  "\<exists>ms occs. parse_cventry (Some text) = Some (Inr (map fst occs)) \<and>
      in_order text 0 ms occs \<and> covers text 0 ms occs"
proof (cases "text = []")
  case True
  have "covers [] 0 [] []"
    unfolding covers_def using occurrence_marker marker_at_bound by fastforce
  with True show ?thesis by (intro exI [of _ "[]"]) (simp add: parse_cventry_def)
next
  case False
  from scan_loop_result [of "text" 0 "[]"] False show ?thesis
    by (simp add: parse_cventry_def)
qed

lemma scan_step_progress:
  "(scan_step text (int p) = Inr Stop \<and> (\<forall>q\<ge>p. \<not> marker_at text q)) \<or>
   (\<exists>m\<ge>p. marker_at text m \<and> (\<forall>j\<in>{p..<m}. \<not> marker_at text j) \<and>
      ((\<exists>en e. scan_step text (int p) = Inr (Emit en (int e)) \<and>
           occurrence text m = Some (en, e) \<and> m + 8 < e \<and> p < e \<and> e \<le> length text) \<or>
       (scan_step text (int p) = Inr (Skip (int m + 9)) \<and> occurrence text m = None \<and>
           int p < int m + 9)))"
proof (cases "\<exists>q\<ge>p. marker_at text q")
  case False
  then have "scan_step text (int p) = Inr Stop" by (intro scan_step_stop) blast
  with False show ?thesis by blast
next
  case True
  from leftmost_marker [OF True]
  obtain m where m: "p \<le> m" "marker_at text m" "\<forall>j\<in>{p..<m}. \<not> marker_at text j"
    by blast
  have step: "scan_step text (int p) =
     (case occurrence text m of
        None \<Rightarrow> Inr (Skip (int m + 9))
      | Some (en, e) \<Rightarrow> Inr (Emit en (int e)))"
    using m(2,1,3) by (rule scan_step_marker)
  show ?thesis
  proof (cases "occurrence text m")
    case None
    with step m show ?thesis by (intro disjI2 exI [of _ m]) simp
  next
    case (Some oc)
    obtain en e where oc: "oc = (en, e)" by (cases oc)
    from occurrence_cases [OF m(2)] Some oc
    have e: "m + 16 \<le> e" "e \<le> length text" by auto
    have "scan_step text (int p) = Inr (Emit en (int e))" using step Some oc by simp
    with Some oc e m show ?thesis
      by (intro disjI2 exI [of _ m]) simp
  qed
qed

lemma trimmed_py_strip: "trimmed (py_strip s)"
proof -
  define t where "t = dropWhile py_isspace s"
  define u where "u = rev (dropWhile py_isspace (rev t))"
  have su: "py_strip s = u" by (simp add: py_strip_def t_def u_def)
  show ?thesis
  proof (cases "u = []")
    case True
    with su show ?thesis by (simp add: trimmed_def)
  next
    case False
    then have ne: "dropWhile py_isspace (rev t) \<noteq> []" by (simp add: u_def)
    then have "\<not> py_isspace (hd (dropWhile py_isspace (rev t)))" by (rule hd_dropWhile)
    then have l: "\<not> py_isspace (last u)" using ne by (simp add: u_def last_rev)
    have "u @ rev (takeWhile py_isspace (rev t)) =
        rev (takeWhile py_isspace (rev t) @ dropWhile py_isspace (rev t))"
      unfolding u_def by (simp only: rev_append)
    also have "\<dots> = t" by (simp only: takeWhile_dropWhile_id rev_rev_ident)
    finally have split: "t = u @ rev (takeWhile py_isspace (rev t))" by (rule sym)
    then have "hd t = hd u" using False by (metis hd_append2)
    moreover have "t \<noteq> []" using split False by auto
    then have "\<not> py_isspace (hd t)" unfolding t_def by (rule hd_dropWhile)
    ultimately have "\<not> py_isspace (hd u)" by simp
    with l False su show ?thesis by (simp add: trimmed_def)
  qed
qed

lemma make_entry_trimmed:
  "trimmed (title (make_entry as)) \<and> trimmed (tech (make_entry as)) \<and>
   trimmed (link_url (make_entry as)) \<and> trimmed (link_text (make_entry as)) \<and>
   trimmed (content (make_entry as))"
  by (simp add: make_entry_def Let_def trimmed_py_strip split: option.split prod.split)

lemma list_of_length_4: "length as = 4 \<Longrightarrow> \<exists>a1 a2 a3 a4. as = [a1, a2, a3, a4]"
proof -
  assume l: "length as = 4"
  then obtain a1 r1 where 1: "as = a1 # r1" "length r1 = 3" by (cases as) auto
  then obtain a2 r2 where 2: "r1 = a2 # r2" "length r2 = 2" by (cases r1) auto
  then obtain a3 r3 where 3: "r2 = a3 # r3" "length r3 = 1" by (cases r2) auto
  then obtain a4 r4 where 4: "r3 = a4 # r4" "length r4 = 0" by (cases r3) auto
  from 1 2 3 4 show ?thesis by simp
qed

lemma occurrence_make_entry:
  assumes "occurrence text m = Some (en, e)"
  shows "marker_at text m \<and>
   (\<exists>a1 a2 a3 a4. extract_latex_args text (int m + 8) 4 = Inr (Some [a1, a2, a3, a4], int e) \<and>
      en = make_entry [a1, a2, a3, a4])"
proof -
  have ne: "occurrence text m \<noteq> None" using assms by simp
  then have m: "marker_at text m" by (rule occurrence_marker)
  from occurrence_cases [OF m]
  show ?thesis
  proof
    assume "extract_latex_args text (int m + 8) 4 = Inr (None, int m + 8) \<and>
          occurrence text m = None"
    with ne show ?thesis by simp
  next
    assume "\<exists>as e. extract_latex_args text (int m + 8) 4 = Inr (Some as, int e) \<and>
            length as = 4 \<and> m + 16 \<le> e \<and> e \<le> length text \<and>
            occurrence text m = Some (make_entry as, e)"
    then obtain as e' where as: "extract_latex_args text (int m + 8) 4 = Inr (Some as, int e')"
      "length as = 4" "occurrence text m = Some (make_entry as, e')"
      by blast
    from as(3) assms have eq: "en = make_entry as" "e' = e" by simp_all
    from list_of_length_4 [OF as(2)] obtain a1 a2 a3 a4 where "as = [a1, a2, a3, a4]"
      by blast
    with as(1) eq m show ?thesis by blast
  qed
qed

lemma in_order_occurrence:
  "in_order text p ms occs \<Longrightarrow> oc \<in> set occs \<Longrightarrow> \<exists>m. occurrence text m = Some oc"
proof (induction ms arbitrary: p occs)
  case Nil
  then show ?case by (cases occs) simp_all
next
  case (Cons m ms)
  from Cons.prems(1) obtain oc' occs' where o: "occs = oc' # occs'" by (cases occs) simp_all
  with Cons.prems(1) have h: "occurrence text m = Some oc'" "in_order text (snd oc') ms occs'"
    by simp_all
  from Cons.prems(2) o have "oc = oc' \<or> oc \<in> set occs'" by simp
  then show ?case
  proof
    assume "oc = oc'"
    with h(1) show ?thesis by blast
  next
    assume "oc \<in> set occs'"
    with Cons.IH [OF h(2)] show ?thesis .
  qed
qed

lemma parse_cventry_entries:
  assumes "parse_cventry doc = Some (Inr entries)" "en \<in> set entries"
  shows "\<exists>text m e. doc = Some text \<and> occurrence text m = Some (en, e)"
proof (cases doc)
  case None
  with assms show ?thesis by (simp add: parse_cventry_def)
next
  case (Some t)
  from parse_cventry_result [of t]
  obtain ms occs where r: "parse_cventry (Some t) = Some (Inr (map fst occs))"
    "in_order t 0 ms occs" by blast
  from r(1) Some assms(1) have "entries = map fst occs" by simp
  with assms(2) obtain oc where oc: "oc \<in> set occs" "en = fst oc" by auto
  from in_order_occurrence [OF r(2) oc(1)] obtain m where "occurrence t m = Some oc" by blast
  with oc(2) have "occurrence t m = Some (en, snd oc)" by simp
  with Some show ?thesis by blast
qed

lemma until_rbrace:
  assumes "rbrace \<notin> set u"
  shows "takeWhile (\<lambda>c. c \<noteq> rbrace) (u @ rbrace # ys) = u"
    and "dropWhile (\<lambda>c. c \<noteq> rbrace) (u @ rbrace # ys) = rbrace # ys"
proof -
  have p: "\<And>x. x \<in> set u \<Longrightarrow> x \<noteq> rbrace" using assms by auto
  show "takeWhile (\<lambda>c. c \<noteq> rbrace) (u @ rbrace # ys) = u"
    by (simp add: takeWhile_append2 [of u "\<lambda>c. c \<noteq> rbrace", OF p])
  show "dropWhile (\<lambda>c. c \<noteq> rbrace) (u @ rbrace # ys) = rbrace # ys"
    by (simp add: dropWhile_append2 [of u "\<lambda>c. c \<noteq> rbrace", OF p])
qed

lemma href_match_here_complete:
  assumes "href_at s 0 u l"
  shows "href_match_here s = Some (u, l)"
proof -
  from assms obtain zs where s: "s = href_open @ u @ rbrace # lbrace # l @ rbrace # zs"
    unfolding href_at_def prefix_def by auto
  from assms have n: "u \<noteq> []" "l \<noteq> []" "rbrace \<notin> set u" "rbrace \<notin> set l"
    by (simp_all add: href_at_def)
  have r1: "drop (length href_open) s = u @ rbrace # lbrace # l @ rbrace # zs"
    by (simp add: s)
  have pre: "prefix href_open s" by (simp add: s)
  show ?thesis
    unfolding href_match_here_def Let_def r1
    using pre n until_rbrace [OF n(3)] until_rbrace [OF n(4)]
    by simp
qed

lemma href_match_here_sound:
  assumes "href_match_here s = Some (u, l)"
  shows "href_at s 0 u l"
proof -
  define r1 where "r1 = drop (length href_open) s"
  define r2 where "r2 = dropWhile (\<lambda>c. c \<noteq> rbrace) r1"
  define r3 where "r3 = drop 2 r2"
  define r4 where "r4 = dropWhile (\<lambda>c. c \<noteq> rbrace) r3"
  from assms have h: "prefix href_open s"
    "takeWhile (\<lambda>c. c \<noteq> rbrace) r1 \<noteq> []" "prefix [rbrace, lbrace] r2"
    "takeWhile (\<lambda>c. c \<noteq> rbrace) r3 \<noteq> []" "prefix [rbrace] r4"
    "u = takeWhile (\<lambda>c. c \<noteq> rbrace) r1" "l = takeWhile (\<lambda>c. c \<noteq> rbrace) r3"
    unfolding href_match_here_def Let_def r1_def r2_def r3_def r4_def
    by (simp_all split: if_splits)
  from h(1) have s: "s = href_open @ r1"
    unfolding r1_def prefix_def by auto
  have a: "r1 = u @ r2" unfolding h(6) r2_def by simp
  from h(3) have b: "r2 = rbrace # lbrace # r3"
    unfolding r3_def prefix_def by auto
  have c: "r3 = l @ r4" unfolding h(7) r4_def by simp
  from h(5) obtain zs where d: "r4 = rbrace # zs" unfolding prefix_def by auto
  have nu: "rbrace \<notin> set u" unfolding h(6) using set_takeWhileD by fastforce
  have nl: "rbrace \<notin> set l" unfolding h(7) using set_takeWhileD by fastforce
  have "s = (href_open @ u @ [rbrace, lbrace] @ l @ [rbrace]) @ zs"
    using s a b c d by simp
  then have "prefix (href_open @ u @ [rbrace, lbrace] @ l @ [rbrace]) (drop 0 s)"
    unfolding prefix_def by auto
  with h(2,4,6,7) nu nl show ?thesis unfolding href_at_def by simp
qed

lemma href_at_Cons: "href_at (c # cs) (Suc k) u l = href_at cs k u l"
  by (simp add: href_at_def)

lemma href_at_Nil: "\<not> href_at [] k u l"
  by (simp add: href_at_def href_open_def)

lemma re_search_href_None: "re_search_href s = None \<Longrightarrow> \<not> href_at s k u l"
proof (induction s arbitrary: k)
  case Nil
  show ?case by (rule href_at_Nil)
next
  case (Cons c cs)
  from Cons.prems have n: "href_match_here (c # cs) = None" "re_search_href cs = None"
    by (simp_all split: option.splits)
  show ?case
  proof (cases k)
    case 0
    show ?thesis
    proof
      assume "href_at (c # cs) k u l"
      with 0 have "href_match_here (c # cs) = Some (u, l)"
        by (intro href_match_here_complete) simp
      with n(1) show False by simp
    qed
  next
    case (Suc k')
    with Cons.IH [OF n(2), of k'] show ?thesis by (simp add: href_at_Cons)
  qed
qed

lemma re_search_href_Some:
  "re_search_href s = Some (u, l) \<Longrightarrow>
   \<exists>k. href_at s k u l \<and> (\<forall>j<k. \<forall>u' l'. \<not> href_at s j u' l')"
proof (induction s)
  case Nil
  then have "href_at [] 0 u l" by (intro href_match_here_sound) simp
  then show ?case using href_at_Nil by blast
next
  case (Cons c cs)
  show ?case
  proof (cases "href_match_here (c # cs)")
    case (Some g)
    with Cons.prems have "href_match_here (c # cs) = Some (u, l)" by simp
    then have "href_at (c # cs) 0 u l" by (rule href_match_here_sound)
    then show ?thesis by (intro exI [of _ 0]) simp
  next
    case None
    with Cons.prems have "re_search_href cs = Some (u, l)" by simp
    from Cons.IH [OF this] obtain k where k: "href_at cs k u l"
      "\<forall>j<k. \<forall>u' l'. \<not> href_at cs j u' l'" by blast
    have "\<not> href_at (c # cs) j u' l'" if "j < Suc k" for j u' l'
    proof (cases j)
      case 0
      show ?thesis
      proof
        assume "href_at (c # cs) j u' l'"
        with 0 have "href_match_here (c # cs) = Some (u', l')"
          by (intro href_match_here_complete) simp
        with None show False by simp
      qed
    next
      case (Suc j')
      with that k(2) show ?thesis by (simp add: href_at_Cons)
    qed
    with k(1) show ?thesis by (intro exI [of _ "Suc k"]) (simp add: href_at_Cons)
  qed
qed

lemma make_entry_link:
  "(\<exists>k u l. href_at link k u l \<and> (\<forall>j<k. \<forall>u' l'. \<not> href_at link j u' l') \<and>
      link_url (make_entry [a1, a2, link, a4]) = py_strip u \<and>
      link_text (make_entry [a1, a2, link, a4]) = py_strip l) \<or>
   ((\<forall>k u l. \<not> href_at link k u l) \<and>
      link_url (make_entry [a1, a2, link, a4]) = [] \<and>
      link_text (make_entry [a1, a2, link, a4]) = py_strip link)"
proof (cases "re_search_href link")
  case None
  then have "\<forall>k u l. \<not> href_at link k u l" using re_search_href_None by blast
  moreover have "link_url (make_entry [a1, a2, link, a4]) = []"
    "link_text (make_entry [a1, a2, link, a4]) = py_strip link"
    using None by (simp_all add: make_entry_def py_strip_def)
  ultimately show ?thesis by blast
next
  case (Some g)
  obtain u l where g: "g = (u, l)" by (cases g)
  with Some have s: "re_search_href link = Some (u, l)" by simp
  from re_search_href_Some [OF s] obtain k where k: "href_at link k u l"
    "\<forall>j<k. \<forall>u' l'. \<not> href_at link j u' l'" by blast
  have "link_url (make_entry [a1, a2, link, a4]) = py_strip u"
    "link_text (make_entry [a1, a2, link, a4]) = py_strip l"
    using s by (simp_all add: make_entry_def)
  with k show ?thesis by blast
qed

subsection \<open>Claims about the entry scanner\<close>




text \<open>
  Claim C6. \<open>parse_cventry\<close> returns a list on every document: the loop ends, and
  without an exception. In every iteration at a cursor \<open>p\<close> either no marker stands
  at or after \<open>p\<close> and the loop stops, or, with \<open>m\<close> the leftmost marker at or after
  \<open>p\<close>, the cursor moves to the end position of a successful extraction, which lies
  past the marker and past \<open>p\<close>, or after a failed extraction to \<open>m + 9\<close>, one
  character past the end of the marker, which lies past \<open>p\<close>.
\<close>

theorem scan_terminates:
  "(\<exists>entries. parse_cventry doc = Some (Inr entries)) \<and>
   (\<forall>text p.
      (scan_step text (int p) = Inr Stop \<and> (\<forall>q\<ge>p. \<not> marker_at text q)) \<or>
      (\<exists>m\<ge>p. marker_at text m \<and> (\<forall>j\<in>{p..<m}. \<not> marker_at text j) \<and>
         ((\<exists>en e. scan_step text (int p) = Inr (Emit en (int e)) \<and>
              occurrence text m = Some (en, e) \<and> m + 8 < e \<and> p < e \<and> e \<le> length text) \<or>
          (scan_step text (int p) = Inr (Skip (int m + 9)) \<and> occurrence text m = None \<and>
              int p < int m + 9))))"
proof -
  have "\<exists>entries. parse_cventry doc = Some (Inr entries)"
  proof (cases doc)
    case None
    then show ?thesis by (simp add: parse_cventry_def)
  next
    case (Some t)
    with parse_cventry_result [of t] show ?thesis by blast
  qed
  with scan_step_progress show ?thesis by blast
qed

theorem scan_terminates_witness:
  "(\<exists>entries. parse_cventry (Some (cventry_marker @ ''{a} '' @ cventry_marker @ ''{T}{b}{c}{d}'')) =
      Some (Inr entries)) \<and>
   scan_step (cventry_marker @ ''{a} '' @ cventry_marker @ ''{T}{b}{c}{d}'') 0 = Inr (Skip 9) \<and>
   scan_step (cventry_marker @ ''{a} '' @ cventry_marker @ ''{T}{b}{c}{d}'') 9 =
     Inr (Emit \<lparr>title = ''T'', tech = ''b'', link_url = [], link_text = ''c'', content = ''d''\<rparr> 32) \<and>
   scan_step (cventry_marker @ ''{a} '' @ cventry_marker @ ''{T}{b}{c}{d}'') 32 = Inr Stop"
proof -
  let ?D = "cventry_marker @ ''{a} '' @ cventry_marker @ ''{T}{b}{c}{d}''"
  have a: "scan_step ?D 0 = Inr (Skip 9)" by code_simp
  have b: "scan_step ?D 9 =
     Inr (Emit \<lparr>title = ''T'', tech = ''b'', link_url = [], link_text = ''c'', content = ''d''\<rparr> 32)"
    by code_simp
  have c: "scan_step ?D 32 = Inr Stop" by code_simp
  from scan_terminates [of "Some ?D"] a b c show ?thesis by blast
qed

text \<open>
  Claim C10. In every record \<open>parse_cventry\<close> returns, each of the five fields
  \<open>title\<close>, \<open>tech\<close>, \<open>link_url\<close>, \<open>link_text\<close> and \<open>content\<close> is empty or
  begins and ends with a character that is not whitespace: every field, the two link
  fields included, is the result of \<^verbatim>\<open>str.strip()\<close>.
\<close>

theorem entries_trimmed:
  assumes "parse_cventry doc = Some (Inr entries)"
  shows "\<forall>en\<in>set entries.
     trimmed (title en) \<and> trimmed (tech en) \<and> trimmed (link_url en) \<and>
     trimmed (link_text en) \<and> trimmed (content en)"
proof
  fix en assume en: "en \<in> set entries"
  from parse_cventry_entries [OF assms en]
  obtain t m e where o: "occurrence t m = Some (en, e)" by blast
  from occurrence_make_entry [OF o] obtain as where "en = make_entry as" by blast
  then show "trimmed (title en) \<and> trimmed (tech en) \<and> trimmed (link_url en) \<and>
     trimmed (link_text en) \<and> trimmed (content en)"
    by (simp only: make_entry_trimmed)
qed

theorem entries_trimmed_witness:
  "parse_cventry (Some (cventry_marker @ ''{ T }{ X }{ '' @ href_open @ '' u }{ L }}{ C }'')) =
     Some (Inr [\<lparr>title = ''T'', tech = ''X'', link_url = ''u'', link_text = ''L'', content = ''C''\<rparr>]) \<and>
   trimmed ''T'' \<and> trimmed ''X'' \<and> trimmed ''u'' \<and> trimmed ''L'' \<and> trimmed ''C''"
proof -
  let ?D = "cventry_marker @ ''{ T }{ X }{ '' @ href_open @ '' u }{ L }}{ C }''"
  have a: "parse_cventry (Some ?D) =
     Some (Inr [\<lparr>title = ''T'', tech = ''X'', link_url = ''u'', link_text = ''L'', content = ''C''\<rparr>])"
    by code_simp
  from entries_trimmed [OF a] a show ?thesis by simp
qed

text \<open>
  Claim C8, as the code has it. Every record \<open>parse_cventry\<close> returns comes from a
  marker whose four arguments were extracted. If the third argument contains a link
  wrapper, the record's URL and label are the two arguments of the leftmost one, each
  with leading and trailing whitespace removed; otherwise the URL is empty and the
  label is the whole third argument with leading and trailing whitespace removed.
\<close>

theorem link_fields:
  assumes "parse_cventry doc = Some (Inr entries)" and "en \<in> set entries"
  shows "\<exists>text m e a1 a2 link a4.
     doc = Some text \<and> marker_at text m \<and>
     extract_latex_args text (int m + 8) 4 = Inr (Some [a1, a2, link, a4], int e) \<and>
     ((\<exists>k u l. href_at link k u l \<and> (\<forall>j<k. \<forall>u' l'. \<not> href_at link j u' l') \<and>
         link_url en = py_strip u \<and> link_text en = py_strip l) \<or>
      ((\<forall>k u l. \<not> href_at link k u l) \<and> link_url en = [] \<and> link_text en = py_strip link))"
proof -
  from parse_cventry_entries [OF assms]
  obtain t m e where o: "doc = Some t" "occurrence t m = Some (en, e)" by blast
  from occurrence_make_entry [OF o(2)]
  obtain a1 a2 a3 a4 where a: "marker_at t m"
    "extract_latex_args t (int m + 8) 4 = Inr (Some [a1, a2, a3, a4], int e)"
    "en = make_entry [a1, a2, a3, a4]" by blast
  from make_entry_link [of a3 a1 a2 a4]
  have "(\<exists>k u l. href_at a3 k u l \<and> (\<forall>j<k. \<forall>u' l'. \<not> href_at a3 j u' l') \<and>
         link_url en = py_strip u \<and> link_text en = py_strip l) \<or>
      ((\<forall>k u l. \<not> href_at a3 k u l) \<and> link_url en = [] \<and> link_text en = py_strip a3)"
    unfolding a(3) .
  with o(1) a(1,2) show ?thesis by blast
qed

theorem link_fields_witness:
  "parse_cventry (Some (cventry_marker @ ''{T}{X}{'' @ href_open @ ''http://x}{Demo}}{C}'')) =
     Some (Inr [\<lparr>title = ''T'', tech = ''X'', link_url = ''http://x'', link_text = ''Demo'',
                 content = ''C''\<rparr>]) \<and>
   (\<exists>text m e a1 a2 link a4.
     Some (cventry_marker @ ''{T}{X}{'' @ href_open @ ''http://x}{Demo}}{C}'') = Some text \<and>
     marker_at text m \<and>
     extract_latex_args text (int m + 8) 4 = Inr (Some [a1, a2, link, a4], int e) \<and>
     ((\<exists>k u l. href_at link k u l \<and> (\<forall>j<k. \<forall>u' l'. \<not> href_at link j u' l') \<and>
         link_url \<lparr>title = ''T'', tech = ''X'', link_url = ''http://x'', link_text = ''Demo'',
                 content = ''C''\<rparr> = py_strip u \<and>
         link_text \<lparr>title = ''T'', tech = ''X'', link_url = ''http://x'', link_text = ''Demo'',
                 content = ''C''\<rparr> = py_strip l) \<or>
      ((\<forall>k u l. \<not> href_at link k u l) \<and>
         link_url \<lparr>title = ''T'', tech = ''X'', link_url = ''http://x'', link_text = ''Demo'',
                 content = ''C''\<rparr> = [] \<and>
         link_text \<lparr>title = ''T'', tech = ''X'', link_url = ''http://x'', link_text = ''Demo'',
                 content = ''C''\<rparr> = py_strip link))) \<and>
   href_at (href_open @ ''http://x}{Demo}'') 0 ''http://x'' ''Demo''"
proof -
  let ?D = "cventry_marker @ ''{T}{X}{'' @ href_open @ ''http://x}{Demo}}{C}''"
  let ?E = "\<lparr>title = ''T'', tech = ''X'', link_url = ''http://x'', link_text = ''Demo'',
                 content = ''C''\<rparr>"
  have a: "parse_cventry (Some ?D) = Some (Inr [?E])" by code_simp
  have b: "?E \<in> set [?E]" by simp
  have c: "href_at (href_open @ ''http://x}{Demo}'') 0 ''http://x'' ''Demo''" by code_simp
  show ?thesis by (rule conjI [OF a conjI [OF link_fields [OF a b] c]])
qed

text \<open>
  Claim C8 as stated fails: the label is not the whole third argument, and URL and
  label are not the wrapper's two arguments, when these have whitespace at either end;
  line 258 and line 259 strip them.
\<close>

theorem link_fields_are_stripped:
  "extract_latex_args (cventry_marker @ ''{T}{X}{ L }{C}'') 8 4 =
     Inr (Some [''T'', ''X'', '' L '', ''C''], 22) \<and>
   parse_cventry (Some (cventry_marker @ ''{T}{X}{ L }{C}'')) =
     Some (Inr [\<lparr>title = ''T'', tech = ''X'', link_url = [], link_text = ''L'', content = ''C''\<rparr>]) \<and>
   ''L'' \<noteq> '' L '' \<and>
   extract_latex_args (cventry_marker @ ''{T}{X}{'' @ href_open @ '' u }{ D }}{C}'') 8 4 =
     Inr (Some [''T'', ''X'', href_open @ '' u }{ D }'', ''C''], 34) \<and>
   re_search_href (href_open @ '' u }{ D }'') = Some ('' u '', '' D '') \<and>
   parse_cventry (Some (cventry_marker @ ''{T}{X}{'' @ href_open @ '' u }{ D }}{C}'')) =
     Some (Inr [\<lparr>title = ''T'', tech = ''X'', link_url = ''u'', link_text = ''D'', content = ''C''\<rparr>]) \<and>
   ''u'' \<noteq> '' u '' \<and> ''D'' \<noteq> '' D ''"
proof -
  have a: "extract_latex_args (cventry_marker @ ''{T}{X}{ L }{C}'') 8 4 =
     Inr (Some [''T'', ''X'', '' L '', ''C''], 22)" by code_simp
  have b: "parse_cventry (Some (cventry_marker @ ''{T}{X}{ L }{C}'')) =
     Some (Inr [\<lparr>title = ''T'', tech = ''X'', link_url = [], link_text = ''L'', content = ''C''\<rparr>])"
    by code_simp
  have c: "extract_latex_args (cventry_marker @ ''{T}{X}{'' @ href_open @ '' u }{ D }}{C}'') 8 4 =
     Inr (Some [''T'', ''X'', href_open @ '' u }{ D }'', ''C''], 34)" by code_simp
  have d: "re_search_href (href_open @ '' u }{ D }'') = Some ('' u '', '' D '')" by code_simp
  have e: "parse_cventry (Some (cventry_marker @ ''{T}{X}{'' @ href_open @ '' u }{ D }}{C}'')) =
     Some (Inr [\<lparr>title = ''T'', tech = ''X'', link_url = ''u'', link_text = ''D'', content = ''C''\<rparr>])"
    by code_simp
  have f: "''L'' \<noteq> '' L ''" "''u'' \<noteq> '' u ''" "''D'' \<noteq> '' D ''" by simp_all
  show ?thesis
    by (rule conjI [OF a conjI [OF b conjI [OF f(1) conjI [OF c conjI [OF d conjI [OF e conjI [OF f(2) f(3)]]]]]]])
qed

subsection \<open>The empty document\<close>

text \<open>
  Claim C9. For the absent document (\<^verbatim>\<open>None\<close>) and for the empty string,
  \<open>parse_cventry\<close> returns the empty list and raises nothing.
\<close>

theorem parse_cventry_empty:
  "parse_cventry None = Some (Inr []) \<and> parse_cventry (Some []) = Some (Inr [])"
  by (simp add: parse_cventry_def)

end
